theory Spec2Isabelle
  imports Complex_Main "HOL-Library.Word"
begin

section \<open>Row compaction: \<open>remove_index\<close>\<close>

text \<open>
  \<^verbatim>\<open>std::move(first, last, d_first)\<close> on one vector: the elements of
  \<open>[first, last)\<close> are assigned, front to back, to the positions starting at
  \<open>d_first\<close>. A moved-from element keeps its value here (the rows are numbers); the
  callers below never read a moved-from position before it is overwritten or cut off.
\<close>

function move_range :: "'a list \<Rightarrow> nat \<Rightarrow> nat \<Rightarrow> nat \<Rightarrow> 'a list" where
  "move_range v first lst d_first =
     (if first < lst
      then move_range (v[d_first := v ! first]) (Suc first) lst (Suc d_first)
      else v)"
  by pat_completeness auto
termination
  by (relation "measure (\<lambda>(v, first, lst, d_first). lst - first)") auto

text \<open>
  The loop of \<open>remove_index\<close>: \<open>down_by\<close> counts the entries of \<open>to_remove\<close>
  already handled, \<open>next\<close> is the following entry or the size of the vector. An
  iterator range that is not valid (\<open>first > last\<close>, \<open>last\<close> past the end, a
  destination before the beginning) is undefined behaviour in C++: the model stops
  with \<open>None\<close>.
\<close>

fun remove_loop :: "'a list \<Rightarrow> nat \<Rightarrow> int list \<Rightarrow> 'a list option" where
  "remove_loop v down_by [] = Some v"
| "remove_loop v down_by (r # rs) =
     (let next = (case rs of [] \<Rightarrow> int (length v) | r' # _ \<Rightarrow> r')
      in if r + 1 \<le> next \<and> next \<le> int (length v) \<and> 0 \<le> r - int down_by
         then remove_loop (move_range v (nat (r + 1)) (nat next) (nat (r - int down_by)))
                (Suc down_by) rs
         else None)"

definition remove_index :: "'a list \<Rightarrow> int list \<Rightarrow> 'a list option" where
  "remove_index vector to_remove =
     (case remove_loop vector 0 to_remove of
        None \<Rightarrow> None
      | Some w \<Rightarrow>
          if length to_remove \<le> length w
          then Some (take (length w - length to_remove) w)
          else None)"

section \<open>Single-precision values\<close>

text \<open>
  The tables hold C++ \<open>float\<close>s, IEEE 754 binary32, and the host code computes on
  them in single precision, rounding every operation to nearest, ties to even. A finite
  float is the real number it denotes (\<open>Fin\<close>); the two zeros are one value, which
  no comparison and no result below tells apart (every zero denominator below is a sum
  started at \<open>+0.0\<close>, hence \<open>+0.0\<close>, so the sign of an infinite quotient is that of
  the numerator). NaN is absorbing and compares false with everything.
\<close>

datatype fval = Fin real | PInf | NInf | NaN

text \<open>
  Rounding a real to binary32. \<open>expo\<close> is the exponent of the binade of a magnitude,
  not below that of the subnormals (\<open>-126\<close>) and not above the largest (\<open>127\<close>),
  found by searching downwards; the spacing of the floats there is \<open>2 ^ (expo - 23)\<close>.
  \<open>round_half_even\<close> is the nearest integer, the even one at a tie. A result of
  magnitude \<open>2 ^ 128\<close> or more overflows to an infinity; a result below the smallest
  subnormal underflows to zero.
\<close>

fun binade :: "real \<Rightarrow> int \<Rightarrow> nat \<Rightarrow> int" where
  "binade a e 0 = e"
| "binade a e (Suc k) = (if 2 powi e \<le> a then e else binade a (e - 1) k)"

definition expo :: "real \<Rightarrow> int" where
  "expo a = binade a 127 253"

definition round_half_even :: "real \<Rightarrow> int" where
  "round_half_even m =
     (let n = \<lfloor>m\<rfloor>; f = m - of_int n
      in if f < 1 / 2 then n else if 1 / 2 < f then n + 1 else if even n then n else n + 1)"

definition round32 :: "real \<Rightarrow> fval" where
  "round32 x =
     (let ulp = 2 powi (expo \<bar>x\<bar> - 23);
          y = of_int (round_half_even (x / ulp)) * ulp
      in if 2 powi 128 \<le> \<bar>y\<bar> then (if 0 < x then PInf else NInf) else Fin y)"

text \<open>
  The operations \<open>+\<close>, \<open>*\<close> and \<open>/\<close> on floats: the exact result of two finite
  operands is rounded; a non-zero value divided by zero is an infinity and zero divided
  by zero is NaN.
\<close>

fun fadd :: "fval \<Rightarrow> fval \<Rightarrow> fval" where
  "fadd (Fin a) (Fin b) = round32 (a + b)"
| "fadd NaN _ = NaN"
| "fadd _ NaN = NaN"
| "fadd PInf NInf = NaN"
| "fadd NInf PInf = NaN"
| "fadd PInf _ = PInf"
| "fadd _ PInf = PInf"
| "fadd NInf _ = NInf"
| "fadd _ NInf = NInf"

fun fmul :: "fval \<Rightarrow> fval \<Rightarrow> fval" where
  "fmul (Fin a) (Fin b) = round32 (a * b)"
| "fmul NaN _ = NaN"
| "fmul _ NaN = NaN"
| "fmul (Fin a) PInf = (if a = 0 then NaN else if 0 < a then PInf else NInf)"
| "fmul (Fin a) NInf = (if a = 0 then NaN else if 0 < a then NInf else PInf)"
| "fmul PInf (Fin b) = (if b = 0 then NaN else if 0 < b then PInf else NInf)"
| "fmul NInf (Fin b) = (if b = 0 then NaN else if 0 < b then NInf else PInf)"
| "fmul PInf PInf = PInf"
| "fmul NInf NInf = PInf"
| "fmul PInf NInf = NInf"
| "fmul NInf PInf = NInf"

fun fdiv :: "fval \<Rightarrow> fval \<Rightarrow> fval" where
  "fdiv (Fin a) (Fin b) =
     (if b = 0 then (if a = 0 then NaN else if 0 < a then PInf else NInf)
      else round32 (a / b))"
| "fdiv NaN _ = NaN"
| "fdiv _ NaN = NaN"
| "fdiv (Fin a) _ = Fin 0"
| "fdiv PInf (Fin b) = (if 0 \<le> b then PInf else NInf)"
| "fdiv NInf (Fin b) = (if 0 \<le> b then NInf else PInf)"
| "fdiv _ _ = NaN"

text \<open>The comparisons \<open><\<close> and \<open>>=\<close> of C++ on floats; \<open>a > b\<close> is \<open>flt b a\<close>.\<close>

fun flt :: "fval \<Rightarrow> fval \<Rightarrow> bool" where
  "flt (Fin a) (Fin b) = (a < b)"
| "flt NaN _ = False"
| "flt _ NaN = False"
| "flt PInf _ = False"
| "flt _ NInf = False"
| "flt _ _ = True"

fun fge :: "fval \<Rightarrow> fval \<Rightarrow> bool" where
  "fge (Fin a) (Fin b) = (b \<le> a)"
| "fge NaN _ = False"
| "fge _ NaN = False"
| "fge PInf _ = True"
| "fge _ NInf = True"
| "fge _ _ = False"

text \<open>The sum of a row, accumulated from \<open>0.0\<close> front to back.\<close>

definition row_sum :: "fval list \<Rightarrow> fval" where
  "row_sum row = foldl fadd (Fin 0) row"

section \<open>The fusion state and \<open>UpdateSurfelProbabilities\<close>\<close>

text \<open>
  What the code can fail with: a failed \<open>assert\<close>, and an access outside a buffer
  (undefined behaviour in C++), an allocation of negative size, a read of a variable
  that was never written, a conversion of a float that no \<open>int\<close> represents.
\<close>

datatype failure = AssertionFailed | OutOfBounds | BadAlloc | Indeterminate | BadConversion

text \<open>
  A blob is a flat buffer with its dimensions; the table blobs are class-major, the
  cell of class \<open>j\<close> and row \<open>id\<close> is at \<open>j * width + id\<close>.
\<close>

record blob =
  blob_data :: "fval list"
  blob_height :: int
  blob_width :: int

text \<open>The members of \<open>SemanticFusionInterface\<close> (the trailing underscores dropped).\<close>

record interface =
  class_probabilities :: "fval list list"
  class_probabilities_gpu :: blob
  class_probabilities_gpu_buffer :: blob
  class_max_gpu :: blob
  class_max_gpu_buffer :: blob
  current_table_size :: int
  max_components :: int
  num_classes :: int
  colour_threshold :: fval

text \<open>First loop: \<open>surfel_probs[c] *= class_probs[c]; denominator += surfel_probs[c]\<close>.\<close>

definition mult_step :: "fval list \<Rightarrow> nat \<Rightarrow> fval list \<times> fval \<Rightarrow> fval list \<times> fval" where
  "mult_step class_probs class_id = (\<lambda>(surfel_probs, normalisation_denominator).
     let sp = surfel_probs[class_id := fmul (surfel_probs ! class_id) (class_probs ! class_id)]
     in (sp, fadd normalisation_denominator (sp ! class_id)))"

text \<open>
  Second loop: \<open>surfel_probs[c] /= denominator\<close>, then the running maximum with
  \<open>>=\<close>.
\<close>

definition norm_step ::
  "fval \<Rightarrow> nat \<Rightarrow> fval list \<times> fval \<times> int \<Rightarrow> fval list \<times> fval \<times> int" where
  "norm_step normalisation_denominator class_id = (\<lambda>(surfel_probs, max_prob, max_class).
     let sp = surfel_probs[class_id := fdiv (surfel_probs ! class_id) normalisation_denominator]
     in if fge (sp ! class_id) max_prob then (sp, sp ! class_id, int class_id)
        else (sp, max_prob, max_class))"

text \<open>Both loops on a row of \<open>n\<close> classes: the new row, \<open>max_prob\<close> and \<open>max_class\<close>.\<close>

definition fuse_row :: "nat \<Rightarrow> fval list \<Rightarrow> fval list \<Rightarrow> fval list \<times> fval \<times> int" where
  "fuse_row n class_probs surfel_probs =
     (let (sp, normalisation_denominator) =
            fold (mult_step class_probs) [0..<n] (surfel_probs, Fin 0)
      in fold (norm_step normalisation_denominator) [0..<n] (sp, Fin 0, - 1))"

definition UpdateSurfelProbabilities ::
  "interface \<Rightarrow> int \<Rightarrow> fval list \<Rightarrow> failure + (interface \<times> int)" where
  "UpdateSurfelProbabilities s surfel_id class_probs =
     (if \<not> surfel_id < int (length (class_probabilities s)) then Inl AssertionFailed
      else if surfel_id < 0 then Inl OutOfBounds
      else
        let surfel_probs = class_probabilities s ! nat surfel_id in
        if int (length class_probs) \<noteq> num_classes s then Inl AssertionFailed
        else if int (length surfel_probs) \<noteq> num_classes s then Inl AssertionFailed
        else
          let (sp, max_prob, max_class) = fuse_row (nat (num_classes s)) class_probs surfel_probs;
              s' = s\<lparr>class_probabilities := (class_probabilities s)[nat surfel_id := sp]\<rparr>
          in Inr (s', if fge max_prob (colour_threshold s) then max_class else - 1))"

text \<open>
  A state with only the host-side table \<open>class_probabilities_\<close> filled, for the
  examples.
\<close>

definition no_blob :: blob where
  "no_blob = \<lparr>blob_data = [], blob_height = 0, blob_width = 0\<rparr>"

definition host_state :: "fval list list \<Rightarrow> int \<Rightarrow> fval \<Rightarrow> interface" where
  "host_state rows n thr =
     \<lparr>class_probabilities = rows, class_probabilities_gpu = no_blob,
      class_probabilities_gpu_buffer = no_blob, class_max_gpu = no_blob,
      class_max_gpu_buffer = no_blob, current_table_size = int (length rows),
      max_components = int (length rows), num_classes = n, colour_threshold = thr\<rparr>"

section \<open>The smoothing pass: the write-back of \<open>CRFUpdate\<close>\<close>

text \<open>
  \<open>CRFUpdate\<close> collects the identifiers \<open>0, ..., current_table_size_ - 1\<close> in
  \<open>valid_ids\<close>, hands the unary potentials of those rows to the inference solver (a
  library outside the sources at hand) and copies the solver's result,
  \<open>resulting_probs\<close>, back into the table through a filter. The write-back loops are
  modelled here, with the solver's result as their argument.
\<close>

text \<open>A loop whose body can fail: the first failure ends it.\<close>

fun iterate :: "('a \<Rightarrow> 's \<Rightarrow> failure + 's) \<Rightarrow> 'a list \<Rightarrow> 's \<Rightarrow> failure + 's" where
  "iterate body [] s = Inr s"
| "iterate body (x # xs) s =
     (case body x s of Inl e \<Rightarrow> Inl e | Inr s' \<Rightarrow> iterate body xs s')"

text \<open>
  The cell of class \<open>j\<close> and row \<open>sid\<close> (the source's \<open>id\<close>) in a table of stride \<open>max_comp\<close> (the member \<open>max_components_\<close>), when it
  lies inside a buffer of the given length.
\<close>

definition cell :: "nat \<Rightarrow> int \<Rightarrow> nat \<Rightarrow> int \<Rightarrow> nat option" where
  "cell len max_comp j sid =
     (let k = int j * max_comp + sid
      in if 0 \<le> k \<and> k < int len then Some (nat k) else None)"

text \<open>The write-back filter: \<open>r > 0.0 && r < 1.0\<close>.\<close>

definition accepted :: "fval \<Rightarrow> bool" where
  "accepted r = (flt (Fin 0) r \<and> flt r (Fin 1))"

text \<open>
  The body of the write-back loops: the result for row \<open>valid_ids[i]\<close> and class \<open>j\<close>
  is stored only when the filter accepts it.
\<close>

definition write_back_cell ::
  "fval list \<Rightarrow> int list \<Rightarrow> nat \<Rightarrow> int \<Rightarrow> nat \<Rightarrow> nat \<Rightarrow> fval list \<Rightarrow> failure + fval list" where
  "write_back_cell resulting_probs valid_ids n_classes max_comp i j prob_table =
     (let sid = valid_ids ! i in
      if \<not> i * n_classes + j < length resulting_probs then Inl OutOfBounds
      else if accepted (resulting_probs ! (i * n_classes + j))
      then (case cell (length prob_table) max_comp j sid of
              None \<Rightarrow> Inl OutOfBounds
            | Some k \<Rightarrow> Inr (prob_table[k := resulting_probs ! (i * n_classes + j)]))
      else Inr prob_table)"

definition write_back ::
  "fval list \<Rightarrow> int list \<Rightarrow> nat \<Rightarrow> int \<Rightarrow> fval list \<Rightarrow> failure + fval list" where
  "write_back resulting_probs valid_ids n_classes max_comp prob_table =
     iterate (\<lambda>i. iterate (write_back_cell resulting_probs valid_ids n_classes max_comp i)
                      [0..<n_classes])
       [0..<length valid_ids] prob_table"

section \<open>The table synchroniser\<close>

text \<open>
  What the core reads from the mapping subsystem (\<open>ElasticFusionInterface\<close>) in
  \<open>UpdateProbabilityTable\<close>: \<open>GetMapSurfelCount\<close>, \<open>GetMapSurfelDeletedCount\<close> and
  \<open>GetDeletedSurfelIdsGpu\<close>.
\<close>

record map_view =
  map_surfel_count :: int
  map_deleted_count :: int
  map_deleted_ids :: "int list"

text \<open>
  Modelled from the spec: the kernel \<open>updateProbabilityTable\<close>, whose body is device
  code outside the sources at hand (only its call in \<open>UpdateProbabilityTable\<close> is
  there). By section 4.1 of the specification it writes, into the inactive buffers, a
  table of the new width in which the rows that survive the deletions keep their
  content and their cached summary and are renumbered compactly, and every further row
  up to the new width is fresh: uniform probability \<open>1 / num_classes\<close> (the float
  quotient) and the sentinel best class \<open>-1\<close>. Cells beyond the new width are left
  as the buffer had them.
\<close>

definition updateProbabilityTable ::
  "int list \<Rightarrow> int \<Rightarrow> int \<Rightarrow> fval list \<Rightarrow> int \<Rightarrow> int \<Rightarrow> int \<Rightarrow> fval list \<Rightarrow>
   fval list \<Rightarrow> fval list \<Rightarrow> fval list \<times> fval list" where
  "updateProbabilityTable deleted num_deleted table_size table table_width table_height
       new_table_width table_buffer max_map max_map_buffer =
     (let tw = nat table_width;
          survivors = filter (\<lambda>i. int i \<notin> set (take (nat num_deleted) deleted)) [0..<nat table_size];
          fresh = fdiv (Fin 1) (Fin (real_of_int table_height))
      in (map (\<lambda>k. if k div tw < nat table_height \<and> int (k mod tw) < new_table_width
                    then (if k mod tw < length survivors
                          then table ! ((k div tw) * tw + survivors ! (k mod tw))
                          else fresh)
                    else table_buffer ! k) [0..<length table_buffer],
          map (\<lambda>k. if k div tw < 2 \<and> int (k mod tw) < new_table_width
                    then (if k mod tw < length survivors
                          then max_map ! ((k div tw) * tw + survivors ! (k mod tw))
                          else (if k div tw = 0 then Fin (- 1) else fresh))
                    else max_map_buffer ! k) [0..<length max_map_buffer]))"

text \<open>
  \<open>UpdateProbabilityTable\<close>: the kernel fills the buffers, the two pairs of blobs are
  swapped and the logical width becomes the new surfel count.
\<close>

definition UpdateProbabilityTable :: "interface \<Rightarrow> map_view \<Rightarrow> interface" where
  "UpdateProbabilityTable s m =
     (let new_table_width = map_surfel_count m;
          num_deleted = map_deleted_count m;
          table_width = blob_width (class_probabilities_gpu s);
          table_height = blob_height (class_probabilities_gpu s);
          (new_table, new_max) =
             updateProbabilityTable (map_deleted_ids m) num_deleted (current_table_size s)
               (blob_data (class_probabilities_gpu s)) table_width table_height new_table_width
               (blob_data (class_probabilities_gpu_buffer s))
               (blob_data (class_max_gpu s)) (blob_data (class_max_gpu_buffer s))
      in s\<lparr>class_probabilities_gpu := (class_probabilities_gpu_buffer s)\<lparr>blob_data := new_table\<rparr>,
            class_probabilities_gpu_buffer := class_probabilities_gpu s,
            class_max_gpu := (class_max_gpu_buffer s)\<lparr>blob_data := new_max\<rparr>,
            class_max_gpu_buffer := class_max_gpu s,
            current_table_size := new_table_width\<rparr>)"

text \<open>A state with the device blobs filled, for the examples.\<close>

definition device_state ::
  "fval list \<Rightarrow> fval list \<Rightarrow> fval list \<Rightarrow> fval list \<Rightarrow> int \<Rightarrow> int \<Rightarrow> int \<Rightarrow> interface" where
  "device_state table table_buffer cache cache_buffer n_classes width table_size =
     \<lparr>class_probabilities = [],
      class_probabilities_gpu = \<lparr>blob_data = table, blob_height = n_classes, blob_width = width\<rparr>,
      class_probabilities_gpu_buffer =
        \<lparr>blob_data = table_buffer, blob_height = n_classes, blob_width = width\<rparr>,
      class_max_gpu = \<lparr>blob_data = cache, blob_height = 1, blob_width = 2 * width\<rparr>,
      class_max_gpu_buffer = \<lparr>blob_data = cache_buffer, blob_height = 1, blob_width = 2 * width\<rparr>,
      current_table_size = table_size, max_components = width, num_classes = n_classes,
      colour_threshold = Fin 0\<rparr>"

section \<open>The argmax image: \<open>SaveArgMaxPredictions\<close>\<close>

text \<open>
  The conversion of a float to \<open>int\<close> truncates toward zero; it is undefined when the
  value is not finite or the truncated value is no \<open>int\<close>.
\<close>

definition float_to_int :: "fval \<Rightarrow> failure + int" where
  "float_to_int x =
     (case x of
        Fin a \<Rightarrow>
          (let i = (if 0 \<le> a then \<lfloor>a\<rfloor> else \<lceil>a\<rceil>)
           in if - (2 ^ 31) \<le> i \<and> i < 2 ^ 31 then Inr i else Inl BadConversion)
      | _ \<Rightarrow> Inl BadConversion)"

text \<open>
  The host view of the Summary Cache: \<open>max_class = cpu_data()\<close> and
  \<open>max_prob = cpu_data() + max_components_\<close>, read at an element identifier.
\<close>

definition cache_at :: "interface \<Rightarrow> int \<Rightarrow> fval option" where
  "cache_at s k =
     (if 0 \<le> k \<and> k < int (length (blob_data (class_max_gpu s)))
      then Some (blob_data (class_max_gpu s) ! nat k) else None)"

definition max_class :: "interface \<Rightarrow> int \<Rightarrow> fval option" where
  "max_class s sid = cache_at s sid"

definition max_prob :: "interface \<Rightarrow> int \<Rightarrow> fval option" where
  "max_prob s sid = cache_at s (max_components s + sid)"

text \<open>
  The body of the patch loops for one identifier \<open>sid\<close> (the source's \<open>id\<close>), on
  \<open>(this_max_prob, this_max_class)\<close>.
\<close>

definition consider_surfel :: "interface \<Rightarrow> int \<Rightarrow> fval \<times> int \<Rightarrow> failure + (fval \<times> int)" where
  "consider_surfel s sid = (\<lambda>(this_max_prob, this_max_class).
     if 0 < sid \<and> sid < current_table_size s
     then (case max_prob s sid of
             None \<Rightarrow> Inl OutOfBounds
           | Some p \<Rightarrow>
               if flt this_max_prob p
               then (case max_class s sid of
                       None \<Rightarrow> Inl OutOfBounds
                     | Some c \<Rightarrow>
                         (case float_to_int c of Inl e \<Rightarrow> Inl e | Inr ci \<Rightarrow> Inr (p, ci)))
               else Inr (this_max_prob, this_max_class))
     else Inr (this_max_prob, this_max_class))"

definition patch_step ::
  "interface \<Rightarrow> int list \<Rightarrow> nat \<Rightarrow> nat \<Rightarrow> nat \<Rightarrow> nat \<Rightarrow> fval \<times> int \<Rightarrow> failure + (fval \<times> int)" where
  "patch_step s surfel_ids h w x y st =
     (if ((h * 2) + y) * 640 + (w * 2 + x) < length surfel_ids
      then consider_surfel s (surfel_ids ! (((h * 2) + y) * 640 + (w * 2 + x))) st
      else Inl OutOfBounds)"

text \<open>
  One pixel of the image: the patch loops (\<open>x\<close> outside, \<open>y\<close> inside) from
  \<open>(0.0, 0)\<close>, then the class stored in the three \<open>uchar\<close> channels.
\<close>

definition argmax_pixel ::
  "interface \<Rightarrow> int list \<Rightarrow> nat \<Rightarrow> nat \<Rightarrow> failure + (8 word \<times> 8 word \<times> 8 word)" where
  "argmax_pixel s surfel_ids h w =
     (case iterate (\<lambda>x. iterate (patch_step s surfel_ids h w x) [0..<2]) [0..<2] (Fin 0, 0) of
        Inl e \<Rightarrow> Inl e
      | Inr (this_max_prob, this_max_class) \<Rightarrow>
          Inr (word_of_int this_max_class, word_of_int this_max_class, word_of_int this_max_class))"

text \<open>A loop that appends one computed element per index.\<close>

definition collect :: "('a \<Rightarrow> failure + 'b) \<Rightarrow> 'a list \<Rightarrow> failure + 'b list" where
  "collect f xs =
     iterate (\<lambda>x acc. case f x of Inl e \<Rightarrow> Inl e | Inr v \<Rightarrow> Inr (acc @ [v])) xs []"

text \<open>The image written to the file: 240 rows of 320 pixels.\<close>

definition SaveArgMaxPredictions ::
  "interface \<Rightarrow> int list \<Rightarrow> failure + (8 word \<times> 8 word \<times> 8 word) list list" where
  "SaveArgMaxPredictions s surfel_ids =
     collect (\<lambda>h. collect (\<lambda>w. argmax_pixel s surfel_ids h w) [0..<320]) [0..<240]"

text \<open>
  The identifiers of the 2x2 patch of output pixel \<open>(h, w)\<close> in the order the loops
  visit them, and the identifiers that can win the selection: in range, with a cached
  probability above the initial \<open>0.0\<close>.
\<close>

definition patch_ids :: "int list \<Rightarrow> nat \<Rightarrow> nat \<Rightarrow> int list" where
  "patch_ids surfel_ids h w =
     map (\<lambda>(x, y). surfel_ids ! (((h * 2) + y) * 640 + (w * 2 + x)))
       [(0, 0), (0, 1), (1, 0), (1, 1)]"

definition confident :: "interface \<Rightarrow> int \<Rightarrow> bool" where
  "confident s sid =
     (0 < sid \<and> sid < current_table_size s \<and>
      (case max_prob s sid of Some p \<Rightarrow> flt (Fin 0) p | None \<Rightarrow> False))"

text \<open>A state with only the Summary Cache filled, for the examples.\<close>

definition summary_state :: "fval list \<Rightarrow> int \<Rightarrow> int \<Rightarrow> interface" where
  "summary_state buf mc cts =
     \<lparr>class_probabilities = [], class_probabilities_gpu = no_blob,
      class_probabilities_gpu_buffer = no_blob,
      class_max_gpu = \<lparr>blob_data = buf, blob_height = 1, blob_width = 2 * mc\<rparr>,
      class_max_gpu_buffer = no_blob, current_table_size = cts,
      max_components = mc, num_classes = 14, colour_threshold = Fin 0\<rparr>"

section \<open>The colour scheme file: \<open>load_colour_scheme_\<close>\<close>

text \<open>
  A class colour is a name with three colour components (the type is declared in a
  header outside the sources at hand; the loader uses its constructor
  \<open>ClassColour(name, r, g, b)\<close> and its default constructor, whose value is the
  parameter \<open>dflt\<close> below).
\<close>

record ClassColour =
  colour_name :: string
  colour_r :: int
  colour_g :: int
  colour_b :: int

text \<open>
  A string stream is the text not yet read and a flag that is false once an extraction
  has failed or the end was reached before an extraction began. An extraction on a
  stream that is not good does nothing.
\<close>

type_synonym stream = "string \<times> bool"

definition isspace :: "char \<Rightarrow> bool" where
  "isspace c = (c \<in> set [CHR '' '', CHR 0x09, CHR 0x0A, CHR 0x0B, CHR 0x0C, CHR 0x0D])"

definition isdigit :: "char \<Rightarrow> bool" where
  "isdigit c = (c \<in> set ''0123456789'')"

text \<open>\<open>buffer >> str\<close>: skips white space, then takes the characters up to the next white space.\<close>

definition extract_string :: "stream \<Rightarrow> string option \<times> stream" where
  "extract_string = (\<lambda>(buf, good).
     if \<not> good then (None, (buf, False))
     else let rest = dropWhile isspace buf in
       if rest = [] then (None, ([], False))
       else (Some (takeWhile (\<lambda>c. \<not> isspace c) rest), (dropWhile (\<lambda>c. \<not> isspace c) rest, True)))"

text \<open>The value of a string of decimal digits.\<close>

definition decimal :: "string \<Rightarrow> int" where
  "decimal ds = foldl (\<lambda>v c. 10 * v + (of_char c - 48)) 0 ds"

text \<open>
  \<open>buffer >> i\<close> for an \<open>int\<close>: skips white space, reads an optional sign and the
  decimal digits that follow. \<open>None\<close> means that the variable was not written: the
  stream was not good or held only white space. Without a digit the variable becomes 0,
  beyond the range of \<open>int\<close> it becomes the nearest bound, and the stream fails in both
  cases.
\<close>

definition extract_int :: "stream \<Rightarrow> int option \<times> stream" where
  "extract_int = (\<lambda>(buf, good).
     if \<not> good then (None, (buf, False))
     else let rest = dropWhile isspace buf in
       if rest = [] then (None, ([], False))
       else
         let negative = (hd rest = CHR ''-'');
             unsigned = (if hd rest = CHR ''-'' \<or> hd rest = CHR ''+'' then tl rest else rest);
             digits = takeWhile isdigit unsigned;
             after = dropWhile isdigit unsigned;
             v = (if negative then - decimal digits else decimal digits)
         in if digits = [] then (Some 0, (after, False))
            else if 2 ^ 31 - 1 < v then (Some (2 ^ 31 - 1), (after, False))
            else if v < - (2 ^ 31) then (Some (- (2 ^ 31)), (after, False))
            else (Some v, (after, True)))"

text \<open>
  \<open>buffer >> textual_prefix >> id >> r >> g >> b\<close> on one line. The prefix starts
  empty; \<open>id\<close>, \<open>r\<close>, \<open>g\<close> and \<open>b\<close> start uninitialised, and the code reads all
  four afterwards, so a line that leaves one of them unwritten fails.
\<close>

definition parse_line :: "string \<Rightarrow> failure + (string \<times> int \<times> int \<times> int \<times> int)" where
  "parse_line str =
     (let (textual_prefix, s1) = extract_string (str, True);
          (id', s2) = extract_int s1;
          (r, s3) = extract_int s2;
          (g, s4) = extract_int s3;
          (b, s5) = extract_int s4
      in case (id', r, g, b) of
           (Some i, Some rv, Some gv, Some bv) \<Rightarrow>
             Inr (case textual_prefix of None \<Rightarrow> [] | Some p \<Rightarrow> p, i, rv, gv, bv)
         | _ \<Rightarrow> Inl Indeterminate)"

text \<open>
  The \<open>getline\<close> loop over the lines of the file: the first two lines are passed over,
  every later line is parsed, \<open>assert(id < num_classes)\<close> is checked and the colour is
  stored at index \<open>id\<close>. A negative \<open>id\<close> passes the assertion and indexes before the
  vector.
\<close>

fun load_lines :: "int \<Rightarrow> ClassColour list \<Rightarrow> nat \<Rightarrow> string list \<Rightarrow> failure + ClassColour list" where
  "load_lines n_classes colour_scheme line_number [] = Inr colour_scheme"
| "load_lines n_classes colour_scheme line_number (str # rest) =
     (if 2 < line_number
      then (case parse_line str of
              Inl e \<Rightarrow> Inl e
            | Inr (textual_prefix, i, r, g, b) \<Rightarrow>
                if \<not> i < n_classes then Inl AssertionFailed
                else if i < 0 then Inl OutOfBounds
                else load_lines n_classes
                       (colour_scheme[nat i :=
                          \<lparr>colour_name = textual_prefix, colour_r = r, colour_g = g, colour_b = b\<rparr>])
                       (line_number + 1) rest)
      else load_lines n_classes colour_scheme (line_number + 1) rest)"

definition load_colour_scheme :: "ClassColour \<Rightarrow> string list \<Rightarrow> int \<Rightarrow> failure + ClassColour list" where
  "load_colour_scheme dflt file_lines n_classes =
     (if n_classes < 0 then Inl BadAlloc
      else load_lines n_classes (replicate (nat n_classes) dflt) 1 file_lines)"

text \<open>
  The loader as the specification words it: the rows after a header of two lines, each
  an identifier with its colour, checked against the class count and stored at index
  \<open>id\<close>.
\<close>

fun store_rows :: "int \<Rightarrow> ClassColour list \<Rightarrow> string list \<Rightarrow> failure + ClassColour list" where
  "store_rows n_classes colour_scheme [] = Inr colour_scheme"
| "store_rows n_classes colour_scheme (row # rows) =
     (case parse_line row of
        Inl e \<Rightarrow> Inl e
      | Inr (textual_prefix, i, r, g, b) \<Rightarrow>
          if 0 \<le> i \<and> i < n_classes
          then store_rows n_classes
                 (colour_scheme[nat i :=
                    \<lparr>colour_name = textual_prefix, colour_r = r, colour_g = g, colour_b = b\<rparr>]) rows
          else Inl (if i < n_classes then OutOfBounds else AssertionFailed))"

definition row_id :: "string \<Rightarrow> int" where
  "row_id row = (case parse_line row of Inr (textual_prefix, i, r, g, b) \<Rightarrow> i | Inl _ \<Rightarrow> - 1)"

definition row_colour :: "string \<Rightarrow> ClassColour" where
  "row_colour row =
     (case parse_line row of
        Inr (textual_prefix, i, r, g, b) \<Rightarrow>
          \<lparr>colour_name = textual_prefix, colour_r = r, colour_g = g, colour_b = b\<rparr>
      | Inl _ \<Rightarrow> \<lparr>colour_name = [], colour_r = 0, colour_g = 0, colour_b = 0\<rparr>)"

section \<open>Compaction removes exactly the deleted rows\<close>

declare move_range.simps [simp del]

lemma move_range_length: "length (move_range v f l d) = length v"
proof (induction v f l d rule: move_range.induct)
  case (1 v f l d)
  then show ?case by (subst move_range.simps) simp
qed

lemma move_range_nth:
  "d \<le> f \<Longrightarrow> l \<le> length v \<Longrightarrow> i < length v \<Longrightarrow>
   move_range v f l d ! i = (if d \<le> i \<and> i < d + (l - f) then v ! (i - d + f) else v ! i)"
proof (induction v f l d arbitrary: i rule: move_range.induct)
  case (1 v f l d)
  show ?case
  proof (cases "f < l")
    case True
    have step: "move_range v f l d = move_range (v[d := v ! f]) (Suc f) l (Suc d)"
      using True by (subst move_range.simps) simp
    have ih: "move_range (v[d := v ! f]) (Suc f) l (Suc d) ! i =
        (if Suc d \<le> i \<and> i < Suc d + (l - Suc f) then (v[d := v ! f]) ! (i - Suc d + Suc f) else (v[d := v ! f]) ! i)"
      using "1.IH"[OF True, of i] "1.prems" by simp
    have ar: "Suc d \<le> i \<Longrightarrow> i - Suc d + Suc f = i - d + f" by arith
    show ?thesis
      unfolding step ih using "1.prems" True ar
      by (auto simp: nth_list_update)
  next
    case False
    then show ?thesis by (subst move_range.simps) auto
  qed
qed

lemma remove_loop_Cons:
  assumes "nx = (case rs of [] \<Rightarrow> int (length v) | r' # _ \<Rightarrow> r')"
    and "int d + 1 \<le> nx" and "nx \<le> int (length v)" and "k \<le> d"
  shows "remove_loop v k (int d # rs) = remove_loop (move_range v (Suc d) (nat nx) (d - k)) (Suc k) rs"
proof -
  have a: "nat (int d + 1) = Suc d" by simp
  have b: "nat (int d - int k) = d - k" using assms(4) by simp
  show ?thesis
    unfolding remove_loop.simps Let_def assms(1)[symmetric] a b
    using assms(2,3,4) by simp
qed

declare remove_loop.simps(2) [simp del]

lemma drop_eq_nth:
  "drop d w = drop d v \<Longrightarrow> length w = length v \<Longrightarrow> d \<le> i \<Longrightarrow> i < length v \<Longrightarrow> w ! i = v ! i"
proof -
  assume a: "drop d w = drop d v" "length w = length v" "d \<le> i" "i < length v"
  have "drop d w ! (i - d) = drop d v ! (i - d)" using a(1) by simp
  moreover have "drop d w ! (i - d) = w ! (d + (i - d))" by (rule nth_drop) (use a in simp)
  moreover have "drop d v ! (i - d) = v ! (d + (i - d))" by (rule nth_drop) (use a in simp)
  ultimately show ?thesis using a by simp
qed

lemma filter_upt_notin:
  "\<forall>x\<in>S. x < a \<or> b \<le> x \<Longrightarrow> filter (\<lambda>i. i \<notin> S) [a..<b] = [a..<b]"
  by (auto simp: filter_id_conv)

lemma remove_loop_inv:
  "sorted_wrt (<) (d # ds) \<Longrightarrow> \<forall>x\<in>set (d # ds). x < length v \<Longrightarrow> length w = length v \<Longrightarrow>
   k \<le> d \<Longrightarrow> drop d w = drop d v \<Longrightarrow>
   \<exists>w'. remove_loop w k (map int (d # ds)) = Some w' \<and> length w' = length v \<and>
        take (length v - k - length (d # ds)) w' =
          take (d - k) w @ map ((!) v) (filter (\<lambda>i. i \<notin> set (d # ds)) [d..<length v])"
proof (induction ds arbitrary: d w k)
  case Nil
  let ?n = "length v"
  let ?w1 = "move_range w (Suc d) ?n (d - k)"
  have dn: "d < ?n" using Nil by simp
  have loop: "remove_loop w k (map int [d]) = Some ?w1"
    using remove_loop_Cons[where d=d and nx="int ?n" and v=w and k=k and rs="[]"] Nil dn by simp
  have len: "length ?w1 = ?n" by (simp add: move_range_length Nil)
  have vw: "\<And>i. d \<le> i \<Longrightarrow> i < ?n \<Longrightarrow> w ! i = v ! i"
    using drop_eq_nth[OF Nil(5) Nil(3)] by simp
  have flt: "filter (\<lambda>i. i \<notin> set [d]) [d..<?n] = [Suc d..<?n]"
    using dn by (simp add: upt_conv_Cons filter_id_conv)
  have "take (?n - k - 1) ?w1 = take (d - k) w @ map ((!) v) [Suc d..<?n]"
  proof (rule nth_equalityI)
    show "length (take (?n - k - 1) ?w1) = length (take (d - k) w @ map ((!) v) [Suc d..<?n])"
      using len Nil dn by simp
  next
    fix i assume "i < length (take (?n - k - 1) ?w1)"
    then have i: "i < ?n - k - 1" by simp
    then have "?w1 ! i = (if d - k \<le> i \<and> i < d - k + (?n - Suc d) then w ! (i - (d - k) + Suc d) else w ! i)"
      using move_range_nth[of "d - k" "Suc d" ?n w i] Nil by simp
    then show "take (?n - k - 1) ?w1 ! i = (take (d - k) w @ map ((!) v) [Suc d..<?n]) ! i"
      using i Nil dn vw by (auto simp: nth_append)
  qed
  then show ?case using loop len flt by simp
next
  case (Cons d' ds)
  let ?n = "length v"
  let ?w1 = "move_range w (Suc d) d' (d - k)"
  have dd: "d < d'" "d' < ?n" using Cons.prems by simp_all
  have loop: "remove_loop w k (map int (d # d' # ds)) = remove_loop ?w1 (Suc k) (map int (d' # ds))"
    using remove_loop_Cons[where d=d and nx="int d'" and v=w and k=k and rs="map int (d' # ds)"] Cons.prems dd by simp
  have len: "length ?w1 = ?n" by (simp add: move_range_length Cons.prems)
  have vw: "\<And>i. d \<le> i \<Longrightarrow> i < ?n \<Longrightarrow> w ! i = v ! i"
    using drop_eq_nth[OF Cons.prems(5) Cons.prems(3)] by simp
  have w1nth: "\<And>i. i < ?n \<Longrightarrow> ?w1 ! i = (if d - k \<le> i \<and> i < d - k + (d' - Suc d) then w ! (i - (d - k) + Suc d) else w ! i)"
    using move_range_nth[of "d - k" "Suc d" d' w] Cons.prems dd by simp
  have drop1: "drop d' ?w1 = drop d' v"
  proof (rule nth_equalityI)
    show "length (drop d' ?w1) = length (drop d' v)" using len by simp
  next
    fix i assume "i < length (drop d' ?w1)"
    then have i: "d' + i < ?n" using len by simp
    show "drop d' ?w1 ! i = drop d' v ! i"
      using i w1nth[of "d' + i"] vw[of "d' + i"] dd Cons.prems(4) len by auto
  qed
  have srt: "sorted_wrt (<) (d' # ds)" using Cons.prems(1) by simp
  have bnd: "\<forall>x\<in>set (d' # ds). x < ?n" using Cons.prems(2) by simp
  have k1: "Suc k \<le> d'" using Cons.prems(4) dd by simp
  from Cons.IH[OF srt bnd len k1 drop1]
  obtain w' where w': "remove_loop ?w1 (Suc k) (map int (d' # ds)) = Some w'" "length w' = ?n"
    "take (?n - Suc k - length (d' # ds)) w' =
       take (d' - Suc k) ?w1 @ map ((!) v) (filter (\<lambda>i. i \<notin> set (d' # ds)) [d'..<?n])"
    by blast
  have tk: "take (d' - Suc k) ?w1 = take (d - k) w @ map ((!) v) [Suc d..<d']"
  proof (rule nth_equalityI)
    show "length (take (d' - Suc k) ?w1) = length (take (d - k) w @ map ((!) v) [Suc d..<d'])"
      using len Cons.prems dd by simp
  next
    fix i assume "i < length (take (d' - Suc k) ?w1)"
    then have i: "i < d' - Suc k" by simp
    then show "take (d' - Suc k) ?w1 ! i = (take (d - k) w @ map ((!) v) [Suc d..<d']) ! i"
      using w1nth[of i] Cons.prems dd vw by (auto simp: nth_append)
  qed
  have all_ge: "\<forall>x\<in>set (d' # ds). d' \<le> x" using Cons.prems(1) by auto
  have split: "[d..<?n] = d # [Suc d..<d'] @ [d'..<?n]"
  proof -
    have "[d..<?n] = d # [Suc d..<?n]" using dd by (simp add: upt_conv_Cons)
    moreover have "[Suc d..<?n] = [Suc d..<d'] @ [d'..<?n]"
      using dd upt_add_eq_append[of "Suc d" d' "?n - d'"] by simp
    ultimately show ?thesis by simp
  qed
  have f1: "filter (\<lambda>i. i \<notin> set (d # d' # ds)) [Suc d..<d'] = [Suc d..<d']"
    using all_ge by (auto simp: filter_id_conv)
  have f2: "filter (\<lambda>i. i \<notin> set (d # d' # ds)) [d'..<?n] = filter (\<lambda>i. i \<notin> set (d' # ds)) [d'..<?n]"
    using dd by (auto intro!: filter_cong)
  have flt: "filter (\<lambda>i. i \<notin> set (d # d' # ds)) [d..<?n] =
      [Suc d..<d'] @ filter (\<lambda>i. i \<notin> set (d' # ds)) [d'..<?n]"
    by (subst split) (simp only: filter.simps filter_append f1 f2, simp)
  show ?case
    using w' loop tk flt by simp
qed


lemma remove_loop_result:
  assumes "sorted_wrt (<) D" and "\<forall>d\<in>set D. d < length v"
  shows "\<exists>w. remove_loop v 0 (map int D) = Some w \<and> length w = length v \<and>
          take (length v - length D) w = map ((!) v) (filter (\<lambda>i. i \<notin> set D) [0..<length v])"
proof (cases D)
  case Nil
  then show ?thesis by (simp add: map_nth)
next
  case (Cons d ds)
  have d: "d < length v" using assms(2) Cons by simp
  have pre: "filter (\<lambda>i. i \<notin> set (d # ds)) [0..<d] = [0..<d]"
    using assms(1) Cons by (auto simp: filter_id_conv)
  have split: "[0..<length v] = [0..<d] @ [d..<length v]"
    using d upt_add_eq_append[of 0 d "length v - d"] by simp
  have tk: "take d v = map ((!) v) [0..<d]"
    using d by (intro nth_equalityI) simp_all
  from remove_loop_inv[of d ds v v 0] assms Cons
  obtain w where w: "remove_loop v 0 (map int (d # ds)) = Some w" "length w = length v"
    "take (length v - 0 - length (d # ds)) w =
       take (d - 0) v @ map ((!) v) (filter (\<lambda>i. i \<notin> set (d # ds)) [d..<length v])"
    by auto
  have "map ((!) v) (filter (\<lambda>i. i \<notin> set (d # ds)) [0..<length v]) =
        take d v @ map ((!) v) (filter (\<lambda>i. i \<notin> set (d # ds)) [d..<length v])"
    by (subst split) (simp only: filter_append map_append pre tk)
  then show ?thesis using w Cons by simp
qed

lemma filter_upt_index:
  assumes "i < n" and "i \<notin> set D"
  shows "map f (filter (\<lambda>j. j \<notin> set D) [0..<n]) ! (i - card {d \<in> set D. d < i}) = f i"
proof -
  let ?P = "\<lambda>j. j \<notin> set D"
  have split: "[0..<n] = [0..<i] @ i # [Suc i..<n]"
    using assms(1) upt_add_eq_append[of 0 i "n - i"] by (simp add: upt_conv_Cons)
  have "{j. j < i \<and> ?P j} = {..<i} - {d \<in> set D. d < i}" by auto
  then have "card {j. j < i \<and> ?P j} = i - card {d \<in> set D. d < i}"
    by (simp add: card_Diff_subset subset_iff)
  moreover have "length (filter ?P [0..<i]) = card {j. j < i \<and> ?P j}"
    unfolding length_filter_conv_card by (rule arg_cong[where f=card]) auto
  ultimately have len: "length (filter ?P [0..<i]) = i - card {d \<in> set D. d < i}" by simp
  have "filter ?P [0..<n] = filter ?P [0..<i] @ i # filter ?P [Suc i..<n]"
    by (subst split) (simp add: assms(2))
  then show ?thesis using len by (simp add: nth_append)
qed

text \<open>
  Claim C2. For a strictly ascending deletion list \<open>D\<close> with every index below the
  width, \<open>remove_index\<close> returns exactly the rows whose index is not in \<open>D\<close>, in
  their original order; the result is shorter by the number of deletions, and the
  surviving row \<open>i\<close> is found at \<open>i\<close> minus the number of deletions below \<open>i\<close>.
\<close>

theorem remove_index_compaction:
  assumes "sorted_wrt (<) D" and "\<forall>d\<in>set D. d < length v"
  shows "remove_index v (map int D) = Some (map ((!) v) (filter (\<lambda>i. i \<notin> set D) [0..<length v]))
       \<and> (\<forall>w. remove_index v (map int D) = Some w \<longrightarrow>
             length w = length v - length D \<and>
             (\<forall>i<length v. i \<notin> set D \<longrightarrow> w ! (i - card {d \<in> set D. d < i}) = v ! i))"
proof -
  from remove_loop_result[OF assms] obtain w0 where
    w0: "remove_loop v 0 (map int D) = Some w0" "length w0 = length v"
        "take (length v - length D) w0 = map ((!) v) (filter (\<lambda>i. i \<notin> set D) [0..<length v])"
    by blast
  have "distinct D" using assms(1) by (simp add: strict_sorted_iff)
  then have "length D = card (set D)" by (simp add: distinct_card)
  also have "\<dots> \<le> card {..<length v}"
    using assms(2) by (intro card_mono) auto
  finally have le: "length D \<le> length v" by simp
  have r: "remove_index v (map int D) = Some (map ((!) v) (filter (\<lambda>i. i \<notin> set D) [0..<length v]))"
    using w0 le by (simp add: remove_index_def)
  have len: "length (map ((!) v) (filter (\<lambda>i. i \<notin> set D) [0..<length v])) = length v - length D"
    using w0(2,3) by (metis length_take min.absorb2 diff_le_self)
  show ?thesis
    using r len filter_upt_index[of _ "length v" D "(!) v"] by simp
qed

theorem remove_index_compaction_witness:
  "sorted_wrt (<) [1, 3 :: nat] \<and> list_all (\<lambda>d. d < length [10, 11, 12, 13, 14 :: nat]) [1, 3] \<and>
   remove_index [10, 11, 12, 13, 14 :: nat] (map int [1, 3]) = Some [10, 12, 14]"
  using remove_index_compaction[of "[1, 3]" "[10, 11, 12, 13, 14 :: nat]"]
  by (simp add: upt_conv_Cons)

section \<open>The binade search and the float comparisons\<close>

lemma binade_eq:
  "a < 2 powi (e + 1) \<Longrightarrow> a < 2 powi (e' + 1) \<Longrightarrow> 2 powi e' \<le> a \<or> e' = e - int k \<Longrightarrow>
   e - int k \<le> e' \<Longrightarrow> e' \<le> e \<Longrightarrow> binade a e k = e'"
proof (induction k arbitrary: e)
  case 0
  then show ?case by simp
next
  case (Suc k)
  show ?case
  proof (cases "2 powi e \<le> a")
    case True
    have "e' = e"
    proof (rule ccontr)
      assume "e' \<noteq> e"
      then have "e' + 1 \<le> e" using Suc.prems(5) by simp
      then have "(2::real) powi (e' + 1) \<le> 2 powi e" by (intro power_int_increasing) simp_all
      then show False using True Suc.prems(2) by simp
    qed
    then show ?thesis using True by simp
  next
    case False
    then have lt: "a < 2 powi (e - 1 + 1)" by simp
    have ne: "e' \<noteq> e"
    proof
      assume "e' = e"
      then show False using Suc.prems(3,4) False by auto
    qed
    have "binade a (e - 1) k = e'"
      using Suc.IH[OF lt Suc.prems(2)] Suc.prems(3,4,5) ne by auto
    then show ?thesis using False by simp
  qed
qed

text \<open>
  The exponent of a magnitude in the normal range is that of its binade; below
  \<open>2 ^ -125\<close> it is \<open>-126\<close>, the exponent shared by the smallest normal binade and the
  subnormals.
\<close>

lemma expo_normal:
  assumes "2 powi e \<le> a" and "a < 2 powi (e + 1)" and "- 125 \<le> e" and "e \<le> 127"
  shows "expo a = e"
proof -
  have "(2::real) powi (e + 1) \<le> 2 powi (127 + 1)"
    using assms(4) by (intro power_int_increasing) simp_all
  then have "a < 2 powi (127 + 1)" using assms(2) by simp
  from binade_eq[OF this assms(2), of 253] assms show ?thesis by (simp add: expo_def)
qed

lemma expo_subnormal:
  assumes "a < 2 powi (- 125)"
  shows "expo a = - 126"
proof -
  have "(2::real) powi (- 125) \<le> 2 powi (127 + 1)" by (intro power_int_increasing) simp_all
  then have "a < 2 powi (127 + 1)" using assms by simp
  from binade_eq[OF this, of "- 126" 253] assms show ?thesis by (simp add: expo_def)
qed

lemma fge_trans: "fge a b \<Longrightarrow> fge b c \<Longrightarrow> fge a c"
  by (cases a; cases b; cases c) simp_all

lemma fge_flt_trans: "fge x m \<Longrightarrow> flt x y \<Longrightarrow> flt m y"
  by (cases x; cases m; cases y) simp_all

lemma flt_imp_fge: "flt m x \<Longrightarrow> fge x m"
  by (cases m; cases x) simp_all

lemma flt_not_fge: "flt a b \<Longrightarrow> \<not> fge a b"
  by (cases a; cases b) simp_all

lemma flt_not_self: "\<not> flt a a"
  by (cases a) simp_all

lemma fge_self: "fge a b \<Longrightarrow> fge a a"
  by (cases a; cases b) simp_all

section \<open>Roundings used in the examples\<close>

text \<open>
  The binary32 roundings of the exact results that occur in the examples below, each
  found from the binade of its argument.
\<close>

lemma round32_value_0: "round32 0 = Fin 0"
proof -
  have e: "expo 0 = - 126" by (rule expo_subnormal) (simp add: power_int_minus)
  show ?thesis by (simp add: round32_def round_half_even_def e power_int_minus Let_def)
qed

lemma round32_value_1: "round32 (150119994289903 / 9007199254740992) = Fin (8947849 / 536870912)"
proof -
  have e: "expo (150119994289903 / 9007199254740992) = - 6" by (rule expo_normal) (simp_all add: power_int_minus)
  show ?thesis by (simp add: round32_def round_half_even_def e power_int_minus Let_def)
qed

lemma round32_value_2: "round32 (8947849 / 178956992) = Fin (3355443 / 67108864)"
proof -
  have e: "expo (8947849 / 178956992) = - 5" by (rule expo_normal) (simp_all add: power_int_minus)
  show ?thesis by (simp add: round32_def round_half_even_def e power_int_minus Let_def)
qed

lemma round32_value_3: "round32 (1 / 8) = Fin (1 / 8)"
proof -
  have e: "expo (1 / 8) = - 3" by (rule expo_normal) (simp_all add: power_int_minus)
  show ?thesis by (simp add: round32_def round_half_even_def e power_int_minus Let_def)
qed

lemma round32_value_4: "round32 (1 / 4) = Fin (1 / 4)"
proof -
  have e: "expo (1 / 4) = - 2" by (rule expo_normal) (simp_all add: power_int_minus)
  show ?thesis by (simp add: round32_def round_half_even_def e power_int_minus Let_def)
qed

lemma round32_value_5: "round32 (4194305 / 16777216) = Fin (4194305 / 16777216)"
proof -
  have e: "expo (4194305 / 16777216) = - 2" by (rule expo_normal) (simp_all add: power_int_minus)
  show ?thesis by (simp add: round32_def round_half_even_def e power_int_minus Let_def)
qed

lemma round32_value_6: "round32 (70368760954881 / 281474976710656) = Fin (4194305 / 16777216)"
proof -
  have e: "expo (70368760954881 / 281474976710656) = - 2" by (rule expo_normal) (simp_all add: power_int_minus)
  show ?thesis by (simp add: round32_def round_half_even_def e power_int_minus Let_def)
qed

lemma round32_value_7: "round32 (84442493292817 / 281474976710656) = Fin (5033165 / 16777216)"
proof -
  have e: "expo (84442493292817 / 281474976710656) = - 2" by (rule expo_normal) (simp_all add: power_int_minus)
  show ?thesis by (simp add: round32_def round_half_even_def e power_int_minus Let_def)
qed

lemma round32_value_8: "round32 (5033165 / 16777216) = Fin (5033165 / 16777216)"
proof -
  have e: "expo (5033165 / 16777216) = - 2" by (rule expo_normal) (simp_all add: power_int_minus)
  show ?thesis by (simp add: round32_def round_half_even_def e power_int_minus Let_def)
qed

lemma round32_value_9: "round32 (170009129 / 536870912) = Fin (10625571 / 33554432)"
proof -
  have e: "expo (170009129 / 536870912) = - 2" by (rule expo_normal) (simp_all add: power_int_minus)
  show ?thesis by (simp add: round32_def round_half_even_def e power_int_minus Let_def)
qed

lemma round32_value_10: "round32 (1 / 3) = Fin (11184811 / 33554432)"
proof -
  have e: "expo (1 / 3) = - 2" by (rule expo_normal) (simp_all add: power_int_minus)
  show ?thesis by (simp add: round32_def round_half_even_def e power_int_minus Let_def)
qed

lemma round32_value_11: "round32 (178956985 / 536870912) = Fin (2796203 / 8388608)"
proof -
  have e: "expo (178956985 / 536870912) = - 2" by (rule expo_normal) (simp_all add: power_int_minus)
  show ?thesis by (simp add: round32_def round_half_even_def e power_int_minus Let_def)
qed

lemma round32_value_12: "round32 (3 / 8) = Fin (3 / 8)"
proof -
  have e: "expo (3 / 8) = - 2" by (rule expo_normal) (simp_all add: power_int_minus)
  show ?thesis by (simp add: round32_def round_half_even_def e power_int_minus Let_def)
qed

lemma round32_value_13: "round32 (1 / 2) = Fin (1 / 2)"
proof -
  have e: "expo (1 / 2) = - 1" by (rule expo_normal) (simp_all add: power_int_minus)
  show ?thesis by (simp add: round32_def round_half_even_def e power_int_minus Let_def)
qed

lemma round32_value_14: "round32 (4194305 / 8388608) = Fin (4194305 / 8388608)"
proof -
  have e: "expo (4194305 / 8388608) = - 1" by (rule expo_normal) (simp_all add: power_int_minus)
  show ?thesis by (simp add: round32_def round_half_even_def e power_int_minus Let_def)
qed

lemma round32_value_15: "round32 (2 / 3) = Fin (11184811 / 16777216)"
proof -
  have e: "expo (2 / 3) = - 1" by (rule expo_normal) (simp_all add: power_int_minus)
  show ?thesis by (simp add: round32_def round_half_even_def e power_int_minus Let_def)
qed

lemma round32_value_16: "round32 (5033165 / 5592406) = Fin (15099493 / 16777216)"
proof -
  have e: "expo (5033165 / 5592406) = - 1" by (rule expo_normal) (simp_all add: power_int_minus)
  show ?thesis by (simp add: round32_def round_half_even_def e power_int_minus Let_def)
qed

lemmas round32_values =
  round32_value_0
  round32_value_1
  round32_value_2
  round32_value_3
  round32_value_4
  round32_value_5
  round32_value_6
  round32_value_7
  round32_value_8
  round32_value_9
  round32_value_10
  round32_value_11
  round32_value_12
  round32_value_13
  round32_value_14
  round32_value_15
  round32_value_16

section \<open>The error of a rounding\<close>





















section \<open>The two loops of the fusion update\<close>

lemma update_at_boundary:
  "n < length sp \<Longrightarrow> length A = n \<Longrightarrow> (A @ drop n sp)[n := x] = (A @ [x]) @ drop (Suc n) sp"
  by (simp add: list_update_append Cons_nth_drop_Suc[symmetric])

lemma nth_at_boundary:
  "n < length sp \<Longrightarrow> length A = n \<Longrightarrow> (A @ drop n sp) ! n = sp ! n"
  by (simp add: nth_append)

lemma fold_mult_step:
  "n \<le> length sp \<Longrightarrow> n \<le> length cp \<Longrightarrow>
   fold (mult_step cp) [0..<n] (sp, d) =
     (map2 fmul (take n sp) (take n cp) @ drop n sp,
      foldl fadd d (map2 fmul (take n sp) (take n cp)))"
proof (induction n)
  case 0
  then show ?case by simp
next
  case (Suc n)
  define A where "A = map2 fmul (take n sp) (take n cp)"
  have lenA: "length A = n" using Suc.prems by (simp add: A_def)
  have n: "n < length sp" "n < length cp" using Suc.prems by simp_all
  have tk: "map2 fmul (take (Suc n) sp) (take (Suc n) cp) = A @ [fmul (sp ! n) (cp ! n)]"
    using n by (simp add: take_Suc_conv_app_nth A_def)
  have ih: "fold (mult_step cp) [0..<n] (sp, d) = (A @ drop n sp, foldl fadd d A)"
    using Suc unfolding A_def by simp
  have upd: "(A @ drop n sp)[n := fmul (sp ! n) (cp ! n)] = (A @ [fmul (sp ! n) (cp ! n)]) @ drop (Suc n) sp"
    by (rule update_at_boundary[OF n(1) lenA])
  have rd: "((A @ [fmul (sp ! n) (cp ! n)]) @ drop (Suc n) sp) ! n = fmul (sp ! n) (cp ! n)"
    using lenA by (simp add: nth_append)
  have "fold (mult_step cp) [0..<Suc n] (sp, d) = mult_step cp n (A @ drop n sp, foldl fadd d A)"
    using ih by simp
  also have "\<dots> = ((A @ [fmul (sp ! n) (cp ! n)]) @ drop (Suc n) sp,
                   fadd (foldl fadd d A) (fmul (sp ! n) (cp ! n)))"
    unfolding mult_step_def Let_def prod.case nth_at_boundary[OF n(1) lenA] upd rd ..
  finally show ?case unfolding tk by simp
qed

lemma fold_norm_step_row:
  "n \<le> length sp \<Longrightarrow>
   fst (fold (norm_step den) [0..<n] (sp, mp, mc)) = map (\<lambda>x. fdiv x den) (take n sp) @ drop n sp"
proof (induction n)
  case 0
  then show ?case by simp
next
  case (Suc n)
  let ?A = "map (\<lambda>x. fdiv x den) (take n sp)"
  have lenA: "length ?A = n" using Suc.prems by simp
  have n: "n < length sp" using Suc.prems by simp
  obtain r m c where st: "fold (norm_step den) [0..<n] (sp, mp, mc) = (r, m, c)"
    by (cases "fold (norm_step den) [0..<n] (sp, mp, mc)") auto
  have r: "r = ?A @ drop n sp" using Suc.IH n st by simp
  have "fst (norm_step den n (r, m, c)) = r[n := fdiv (r ! n) den]"
    by (simp add: norm_step_def Let_def)
  also have "\<dots> = (?A @ [fdiv (sp ! n) den]) @ drop (Suc n) sp"
    unfolding r using nth_at_boundary[OF n lenA] update_at_boundary[OF n lenA] by simp
  finally show ?case using st n by (simp add: take_Suc_conv_app_nth)
qed

lemma fuse_row_general:
  assumes "length sp = n" "length cp = n"
  shows "fst (fuse_row n cp sp) = map (\<lambda>p. fdiv p (row_sum (map2 fmul sp cp))) (map2 fmul sp cp)"
  using assms fold_mult_step[of n sp cp "Fin 0"]
    fold_norm_step_row[of n "map2 fmul sp cp" "row_sum (map2 fmul sp cp)" "Fin 0" "- 1"]
  by (simp add: fuse_row_def row_sum_def)

text \<open>
  The running maximum of the second loop, whatever the values: after \<open>k\<close> steps
  \<open>max_prob\<close> is \<open>>= 0\<close> and no quotient so far exceeds it; either nothing was
  selected yet and no quotient so far is \<open>>= 0\<close>, or the selected index holds
  \<open>max_prob\<close> and no later quotient is \<open>>=\<close> it.
\<close>

lemma fold_norm_step_scan:
  "k \<le> length sp \<Longrightarrow>
   \<exists>mp mc. snd (fold (norm_step den) [0..<k] (sp, Fin 0, - 1)) = (mp, mc) \<and>
     fge mp (Fin 0) \<and> (\<forall>j<k. \<not> flt mp (fdiv (sp ! j) den)) \<and>
     ((mc = - 1 \<and> mp = Fin 0 \<and> (\<forall>j<k. \<not> fge (fdiv (sp ! j) den) (Fin 0))) \<or>
      (\<exists>i<k. mc = int i \<and> mp = fdiv (sp ! i) den \<and>
         (\<forall>j<k. i < j \<longrightarrow> \<not> fge (fdiv (sp ! j) den) (fdiv (sp ! i) den))))"
proof (induction k)
  case 0
  then show ?case by simp
next
  case (Suc k)
  have k: "k < length sp" "k \<le> length sp" using Suc.prems by simp_all
  define x where "x = fdiv (sp ! k) den"
  define q where "q = (\<lambda>j. fdiv (sp ! j) den)"
  obtain r m c where st: "fold (norm_step den) [0..<k] (sp, Fin 0, - 1) = (r, m, c)"
    by (cases "fold (norm_step den) [0..<k] (sp, Fin 0, - 1)") auto
  have r: "r = map (\<lambda>x. fdiv x den) (take k sp) @ drop k sp"
    using fold_norm_step_row[OF k(2), of den "Fin 0" "- 1"] st by simp
  have lr: "k < length r" using k r by simp
  have rk: "r ! k = sp ! k" unfolding r using nth_at_boundary[OF k(1), of "map (\<lambda>x. fdiv x den) (take k sp)"] k by simp
  have step: "snd (fold (norm_step den) [0..<Suc k] (sp, Fin 0, - 1)) =
      (if fge x m then (x, int k) else (m, c))"
    using st lr rk by (simp add: norm_step_def Let_def x_def)
  from Suc.IH[OF k(2)] st
  have m0: "fge m (Fin 0)" and mmax: "\<forall>j<k. \<not> flt m (q j)"
    and alt: "(c = - 1 \<and> m = Fin 0 \<and> (\<forall>j<k. \<not> fge (q j) (Fin 0))) \<or>
      (\<exists>i<k. c = int i \<and> m = q i \<and> (\<forall>j<k. i < j \<longrightarrow> \<not> fge (q j) (q i)))"
    unfolding q_def by simp_all
  have xq: "x = q k" by (simp add: x_def q_def)
  show ?case
  proof (cases "fge x m")
    case True
    have a: "fge x (Fin 0)" using True m0 by (rule fge_trans)
    have b: "\<forall>j<Suc k. \<not> flt x (q j)"
    proof (intro allI impI)
      fix j assume "j < Suc k"
      then consider "j < k" | "j = k" by linarith
      then show "\<not> flt x (q j)"
      proof cases
        case 1
        then have "\<not> flt m (q j)" using mmax by simp
        then show ?thesis using fge_flt_trans[OF True] by blast
      next
        case 2
        then show ?thesis using flt_not_self xq by simp
      qed
    qed
    have c: "\<exists>i<Suc k. int k = int i \<and> x = q i \<and> (\<forall>j<Suc k. i < j \<longrightarrow> \<not> fge (q j) (q i))"
      by (rule exI[of _ k]) (simp add: xq)
    show ?thesis unfolding step using True a b c unfolding q_def by simp
  next
    case False
    have b: "\<forall>j<Suc k. \<not> flt m (q j)"
    proof (intro allI impI)
      fix j assume "j < Suc k"
      then consider "j < k" | "j = k" by linarith
      then show "\<not> flt m (q j)"
      proof cases
        case 1
        then show ?thesis using mmax by simp
      next
        case 2
        then show ?thesis using False flt_imp_fge xq by blast
      qed
    qed
    from alt have c: "(c = - 1 \<and> m = Fin 0 \<and> (\<forall>j<Suc k. \<not> fge (q j) (Fin 0))) \<or>
      (\<exists>i<Suc k. c = int i \<and> m = q i \<and> (\<forall>j<Suc k. i < j \<longrightarrow> \<not> fge (q j) (q i)))"
    proof
      assume h: "c = - 1 \<and> m = Fin 0 \<and> (\<forall>j<k. \<not> fge (q j) (Fin 0))"
      have "\<forall>j<Suc k. \<not> fge (q j) (Fin 0)"
      proof (intro allI impI)
        fix j assume "j < Suc k"
        then consider "j < k" | "j = k" by linarith
        then show "\<not> fge (q j) (Fin 0)"
        proof cases
          case 1 then show ?thesis using h by simp
        next
          case 2 then show ?thesis using False h xq by simp
        qed
      qed
      then show ?thesis using h by simp
    next
      assume "\<exists>i<k. c = int i \<and> m = q i \<and> (\<forall>j<k. i < j \<longrightarrow> \<not> fge (q j) (q i))"
      then obtain i where i: "i < k" "c = int i" "m = q i" "\<forall>j<k. i < j \<longrightarrow> \<not> fge (q j) (q i)"
        by blast
      have "\<forall>j<Suc k. i < j \<longrightarrow> \<not> fge (q j) (q i)"
      proof (intro allI impI)
        fix j assume "j < Suc k" "i < j"
        then consider "j < k" | "j = k" by linarith
        then show "\<not> fge (q j) (q i)"
        proof cases
          case 1 then show ?thesis using i(4) \<open>i < j\<close> by simp
        next
          case 2 then show ?thesis using False i(3) xq by simp
        qed
      qed
      then have "\<exists>i<Suc k. c = int i \<and> m = q i \<and> (\<forall>j<Suc k. i < j \<longrightarrow> \<not> fge (q j) (q i))"
        using i by (intro exI[of _ i]) simp
      then show ?thesis ..
    qed
    show ?thesis unfolding step using False m0 b c unfolding q_def by simp
  qed
qed

text \<open>
  The scan on a whole row, stated on the stored row \<open>q\<close>: with no entry \<open>>= 0\<close> (a
  row of NaNs or of negative values) the initial \<open>0.0\<close> and \<open>-1\<close> survive; otherwise
  the scan ends on an entry that no other exceeds, and no later entry is \<open>>=\<close> it.
\<close>

lemma fuse_row_scan:
  assumes "length sp = n" "length cp = n"
  shows "\<exists>q mp mc. fuse_row n cp sp = (q, mp, mc) \<and> length q = n \<and>
     q = map (\<lambda>p. fdiv p (row_sum (map2 fmul sp cp))) (map2 fmul sp cp) \<and>
     fge mp (Fin 0) \<and> (\<forall>j<n. \<not> flt mp (q ! j)) \<and>
     ((mc = - 1 \<and> mp = Fin 0 \<and> (\<forall>j<n. \<not> fge (q ! j) (Fin 0))) \<or>
      (\<exists>i<n. mc = int i \<and> mp = q ! i \<and> (\<forall>j<n. i < j \<longrightarrow> \<not> fge (q ! j) (q ! i))))"
proof -
  define P where "P = map2 fmul sp cp"
  define d where "d = row_sum P"
  define q where "q = map (\<lambda>p. fdiv p d) P"
  have lP: "length P = n" using assms by (simp add: P_def)
  have ms: "fold (mult_step cp) [0..<n] (sp, Fin 0) = (P, d)"
    using fold_mult_step[of n sp cp "Fin 0"] assms by (simp add: P_def d_def row_sum_def)
  have fr: "fuse_row n cp sp = fold (norm_step d) [0..<n] (P, Fin 0, - 1)"
    by (simp add: fuse_row_def ms)
  have row: "fst (fuse_row n cp sp) = q"
    using fuse_row_general[OF assms] by (simp add: q_def P_def d_def)
  have qj: "\<And>j. j < n \<Longrightarrow> fdiv (P ! j) d = q ! j" using lP by (simp add: q_def)
  from fold_norm_step_scan[of n P d] lP
  obtain mp mc where sc: "snd (fold (norm_step d) [0..<n] (P, Fin 0, - 1)) = (mp, mc)"
    "fge mp (Fin 0)" "\<forall>j<n. \<not> flt mp (fdiv (P ! j) d)"
    "(mc = - 1 \<and> mp = Fin 0 \<and> (\<forall>j<n. \<not> fge (fdiv (P ! j) d) (Fin 0))) \<or>
      (\<exists>i<n. mc = int i \<and> mp = fdiv (P ! i) d \<and>
         (\<forall>j<n. i < j \<longrightarrow> \<not> fge (fdiv (P ! j) d) (fdiv (P ! i) d)))"
    by auto
  have eq: "fuse_row n cp sp = (q, mp, mc)"
    using row sc(1) fr by (metis prod.collapse)
  have "\<forall>j<n. \<not> flt mp (q ! j)" using sc(3) qj by simp
  moreover have "(mc = - 1 \<and> mp = Fin 0 \<and> (\<forall>j<n. \<not> fge (q ! j) (Fin 0))) \<or>
      (\<exists>i<n. mc = int i \<and> mp = q ! i \<and> (\<forall>j<n. i < j \<longrightarrow> \<not> fge (q ! j) (q ! i)))"
    using sc(4) qj by auto
  ultimately show ?thesis
    using eq sc(2) lP unfolding q_def d_def P_def by (intro exI[of _ q] exI[of _ mp] exI[of _ mc]) (simp add: q_def d_def P_def)
qed

section \<open>The sum of a fused row\<close>















section \<open>The write-back loops\<close>

lemma iterate_append:
  "iterate f (xs @ ys) s = (case iterate f xs s of Inl e \<Rightarrow> Inl e | Inr s' \<Rightarrow> iterate f ys s')"
  by (induction xs arbitrary: s) (auto split: sum.splits)

lemma iterate_snoc:
  "iterate f xs s = Inr s' \<Longrightarrow> iterate f (xs @ [x]) s = f x s'"
  by (simp add: iterate_append split: sum.splits)

lemma cell_nat:
  assumes "j * mc + i < len"
  shows "cell len (int mc) j (int i) = Some (j * mc + i)"
proof -
  have c: "int j * int mc + int i = int (j * mc + i)" by simp
  have "0 \<le> int (j * mc + i)" by (rule of_nat_0_le_iff)
  moreover have "int (j * mc + i) < int len" using assms by (simp only: of_nat_less_iff)
  ultimately show ?thesis unfolding cell_def Let_def c by (simp only: nat_int if_True simp_thms)
qed


lemma inner_loop:
  assumes mc: "i < mc" and len: "length t = nc * mc" and rlen: "(i + 1) * nc \<le> length r"
    and vi: "i < length vs" "vs ! i = int i"
  shows "m \<le> nc \<Longrightarrow>
    \<exists>t'. iterate (write_back_cell r vs nc (int mc) i) [0..<m] t = Inr t' \<and> length t' = length t \<and>
       (\<forall>j<m. t' ! (j * mc + i) = (if accepted (r ! (i * nc + j)) then r ! (i * nc + j) else t ! (j * mc + i))) \<and>
       (\<forall>k<length t. (\<forall>j<m. k \<noteq> j * mc + i) \<longrightarrow> t' ! k = t ! k)"
proof (induction m)
  case 0
  then show ?case by simp
next
  case (Suc m)
  from Suc obtain t1 where t1: "iterate (write_back_cell r vs nc (int mc) i) [0..<m] t = Inr t1"
    "length t1 = length t"
    "\<forall>j<m. t1 ! (j * mc + i) = (if accepted (r ! (i * nc + j)) then r ! (i * nc + j) else t ! (j * mc + i))"
    "\<forall>k<length t. (\<forall>j<m. k \<noteq> j * mc + i) \<longrightarrow> t1 ! k = t ! k"
    by auto
  have m: "m < nc" using Suc.prems by simp
  have "m * mc + mc \<le> nc * mc" using m by (metis Suc_leI mult_Suc mult_le_mono1 add.commute)
  then have idx: "m * mc + i < length t" using mc len by simp
  have "i * nc + nc \<le> length r" using rlen by (simp add: algebra_simps)
  then have ridx: "i * nc + m < length r" using m by simp
  have cellv: "cell (length t1) (int mc) m (vs ! i) = Some (m * mc + i)"
    unfolding vi(2) using idx t1(2) by (intro cell_nat) simp
  define t2 where "t2 = (if accepted (r ! (i * nc + m)) then t1[m * mc + i := r ! (i * nc + m)] else t1)"
  have step: "write_back_cell r vs nc (int mc) i m t1 = Inr t2"
    unfolding write_back_cell_def Let_def cellv t2_def accepted_def
    using ridx by simp
  have it: "iterate (write_back_cell r vs nc (int mc) i) [0..<Suc m] t = Inr t2"
    using iterate_snoc[OF t1(1)] step by simp
  have l2: "length t2 = length t" using t1(2) by (simp add: t2_def)
  have inj: "\<And>j. j < m \<Longrightarrow> j * mc + i \<noteq> m * mc + i"
    using mc by simp
  have a: "\<forall>j<Suc m. t2 ! (j * mc + i) = (if accepted (r ! (i * nc + j)) then r ! (i * nc + j) else t ! (j * mc + i))"
  proof (intro allI impI)
    fix j assume "j < Suc m"
    then consider "j < m" | "j = m" by linarith
    then show "t2 ! (j * mc + i) = (if accepted (r ! (i * nc + j)) then r ! (i * nc + j) else t ! (j * mc + i))"
    proof cases
      case 1
      have "t1 ! (j * mc + i) = (if accepted (r ! (i * nc + j)) then r ! (i * nc + j) else t ! (j * mc + i))"
        using t1(3) 1 by blast
      moreover have "t2 ! (j * mc + i) = t1 ! (j * mc + i)"
        using inj[OF 1] by (simp add: t2_def)
      ultimately show ?thesis by simp
    next
      case 2
      have ne: "\<forall>j<m. m * mc + i \<noteq> j * mc + i" using mc by simp
      have "t1 ! (m * mc + i) = t ! (m * mc + i)"
        by (rule mp[OF mp[OF spec[OF t1(4)] idx] ne])
      then show ?thesis using 2 idx t1(2) by (simp add: t2_def)
    qed
  qed
  have b: "\<forall>k<length t. (\<forall>j<Suc m. k \<noteq> j * mc + i) \<longrightarrow> t2 ! k = t ! k"
  proof (intro allI impI)
    fix k assume k: "k < length t" "\<forall>j<Suc m. k \<noteq> j * mc + i"
    then have ne: "k \<noteq> m * mc + i" and old: "\<forall>j<m. k \<noteq> j * mc + i" by auto
    have "t1 ! k = t ! k" using t1(4) k(1) old by blast
    moreover have "t2 ! k = t1 ! k" using ne by (simp add: t2_def)
    ultimately show "t2 ! k = t ! k" by simp
  qed
  show ?case using it l2 a b by blast
qed


lemma cell_index_inj:
  fixes mc :: nat
  assumes "i < mc" "i' < mc" "j * mc + i = j' * mc + i'"
  shows "i = i' \<and> j = j'"
proof -
  have "(j * mc + i) mod mc = i" "(j' * mc + i') mod mc = i'" using assms(1,2) by simp_all
  then have i: "i = i'" using assms(3) by simp
  then have "j * mc = j' * mc" using assms(3) by simp
  then show ?thesis using i assms(1) by simp
qed

lemma cell_index_less:
  fixes mc :: nat
  assumes "i < mc" "j < nc"
  shows "j * mc + i < nc * mc"
proof -
  have "j * mc + i < Suc j * mc" using assms(1) by simp
  also have "\<dots> \<le> nc * mc" using assms(2) by (intro mult_le_mono1) simp
  finally show ?thesis .
qed

lemma outer_loop:
  assumes n: "n \<le> mc" and len: "length t = nc * mc" and rlen: "n * nc \<le> length r"
    and vs: "vs = map int [0..<n]"
  shows "m \<le> n \<Longrightarrow>
    \<exists>t'. iterate (\<lambda>i. iterate (write_back_cell r vs nc (int mc) i) [0..<nc]) [0..<m] t = Inr t' \<and>
       length t' = length t \<and>
       (\<forall>i<m. \<forall>j<nc. t' ! (j * mc + i) =
           (if accepted (r ! (i * nc + j)) then r ! (i * nc + j) else t ! (j * mc + i))) \<and>
       (\<forall>k<length t. (\<forall>i<m. \<forall>j<nc. k \<noteq> j * mc + i) \<longrightarrow> t' ! k = t ! k)"
proof (induction m)
  case 0
  then show ?case by simp
next
  case (Suc m)
  from Suc obtain t1 where t1:
    "iterate (\<lambda>i. iterate (write_back_cell r vs nc (int mc) i) [0..<nc]) [0..<m] t = Inr t1"
    "length t1 = length t"
    "\<forall>i<m. \<forall>j<nc. t1 ! (j * mc + i) =
           (if accepted (r ! (i * nc + j)) then r ! (i * nc + j) else t ! (j * mc + i))"
    "\<forall>k<length t. (\<forall>i<m. \<forall>j<nc. k \<noteq> j * mc + i) \<longrightarrow> t1 ! k = t ! k"
    by auto
  have m: "m < n" "m < mc" using Suc.prems n by simp_all
  have "Suc m * nc \<le> n * nc" using m(1) by (intro mult_le_mono1) simp
  then have r1: "(m + 1) * nc \<le> length r" using rlen by simp
  have vm: "m < length vs" "vs ! m = int m" using m(1) vs by simp_all
  from inner_loop[OF m(2) _ r1 vm, of t1 nc] len t1(2)
  obtain t2 where t2: "iterate (write_back_cell r vs nc (int mc) m) [0..<nc] t1 = Inr t2"
    "length t2 = length t1"
    "\<forall>j<nc. t2 ! (j * mc + m) = (if accepted (r ! (m * nc + j)) then r ! (m * nc + j) else t1 ! (j * mc + m))"
    "\<forall>k<length t1. (\<forall>j<nc. k \<noteq> j * mc + m) \<longrightarrow> t2 ! k = t1 ! k"
    by auto
  have it: "iterate (\<lambda>i. iterate (write_back_cell r vs nc (int mc) i) [0..<nc]) [0..<Suc m] t = Inr t2"
    using iterate_snoc[OF t1(1), of m] t2(1) by simp
  have a: "t2 ! (j * mc + i) = (if accepted (r ! (i * nc + j)) then r ! (i * nc + j) else t ! (j * mc + i))"
    if ij: "i < Suc m" "j < nc" for i j
  proof (cases "i = m")
    case True
    have k: "j * mc + m < length t" using cell_index_less[OF m(2) ij(2)] len by simp
    have "\<forall>i'<m. \<forall>j'<nc. j * mc + m \<noteq> j' * mc + i'"
    proof (intro allI impI notI)
      fix i' j' assume i': "i' < m" and eq: "j * mc + m = j' * mc + i'"
      have "i' < mc" using i' m(2) by simp
      from cell_index_inj[OF m(2) this eq] i' show False by simp
    qed
    then have "t1 ! (j * mc + m) = t ! (j * mc + m)"
      by (rule mp[OF mp[OF spec[OF t1(4)] k]])
    moreover have "t2 ! (j * mc + m) = (if accepted (r ! (m * nc + j)) then r ! (m * nc + j) else t1 ! (j * mc + m))"
      using t2(3) ij(2) by blast
    ultimately show ?thesis using True by simp
  next
    case False
    then have im: "i < m" using ij(1) by simp
    then have imc: "i < mc" using m(2) by simp
    have k: "j * mc + i < length t1" using cell_index_less[OF imc ij(2)] len t1(2) by simp
    have "\<forall>j'<nc. j * mc + i \<noteq> j' * mc + m"
    proof (intro allI impI notI)
      fix j' assume eq: "j * mc + i = j' * mc + m"
      from cell_index_inj[OF imc m(2) eq] False show False by simp
    qed
    then have "t2 ! (j * mc + i) = t1 ! (j * mc + i)"
      by (rule mp[OF mp[OF spec[OF t2(4)] k]])
    moreover have "t1 ! (j * mc + i) = (if accepted (r ! (i * nc + j)) then r ! (i * nc + j) else t ! (j * mc + i))"
      using t1(3) im ij(2) by blast
    ultimately show ?thesis by simp
  qed
  have b: "t2 ! k = t ! k" if k: "k < length t" "\<forall>i<Suc m. \<forall>j<nc. k \<noteq> j * mc + i" for k
  proof -
    have k1: "k < length t1" using k(1) t1(2) by simp
    have "\<forall>j<nc. k \<noteq> j * mc + m" using k(2) by simp
    then have "t2 ! k = t1 ! k" by (rule mp[OF mp[OF spec[OF t2(4)] k1]])
    moreover have "\<forall>i<m. \<forall>j<nc. k \<noteq> j * mc + i" using k(2) by simp
    then have "t1 ! k = t ! k" by (rule mp[OF mp[OF spec[OF t1(4)] k(1)]])
    ultimately show ?thesis by simp
  qed
  show ?case using it t2(2) t1(2) a b by auto
qed

section \<open>Properties of the fusion update\<close>

lemma UpdateSurfelProbabilities_ok:
  assumes "0 \<le> sid" "sid < int (length (class_probabilities s))"
    and "int (length cp) = num_classes s"
    and "int (length (class_probabilities s ! nat sid)) = num_classes s"
  shows "UpdateSurfelProbabilities s sid cp =
     Inr (s\<lparr>class_probabilities := (class_probabilities s)
                [nat sid := fst (fuse_row (nat (num_classes s)) cp (class_probabilities s ! nat sid))]\<rparr>,
          if fge (fst (snd (fuse_row (nat (num_classes s)) cp (class_probabilities s ! nat sid))))
                 (colour_threshold s)
          then snd (snd (fuse_row (nat (num_classes s)) cp (class_probabilities s ! nat sid)))
          else - 1)"
  using assms by (simp add: UpdateSurfelProbabilities_def Let_def case_prod_beta)

text \<open>
  Claim C5, as amended. The renormalisation divides every updated entry by the
  accumulated single-precision sum of the updated row itself: no epsilon is added and
  nothing guards the division. When that sum is finite and not zero the stored entry is
  the rounded quotient of the product by the sum; when it is zero (the products are all
  zero, or underflowed to zero) a zero product becomes \<open>0/0 = NaN\<close> and any other
  product an infinity.
\<close>

theorem renormalisation_divides_by_the_sum:
  assumes "length sp = n" and "length cp = n"
  shows "fst (fuse_row n cp sp) =
           map (\<lambda>p. fdiv p (row_sum (map2 fmul sp cp))) (map2 fmul sp cp) \<and>
         (\<forall>j<n. \<forall>a d. map2 fmul sp cp ! j = Fin a \<and> row_sum (map2 fmul sp cp) = Fin d \<and> d \<noteq> 0 \<longrightarrow>
            fst (fuse_row n cp sp) ! j = round32 (a / d)) \<and>
         (\<forall>j<n. \<forall>a. map2 fmul sp cp ! j = Fin a \<and> row_sum (map2 fmul sp cp) = Fin 0 \<longrightarrow>
            fst (fuse_row n cp sp) ! j = (if a = 0 then NaN else if 0 < a then PInf else NInf))"
proof -
  define P where "P = map2 fmul sp cp"
  have row: "fst (fuse_row n cp sp) = map (\<lambda>p. fdiv p (row_sum P)) P"
    unfolding P_def by (rule fuse_row_general[OF assms])
  have lP: "length P = n" using assms by (simp add: P_def)
  have nth: "\<And>j. j < n \<Longrightarrow> fst (fuse_row n cp sp) ! j = fdiv (P ! j) (row_sum P)"
    using row lP by simp
  have a: "\<forall>j<n. \<forall>a d. P ! j = Fin a \<and> row_sum P = Fin d \<and> d \<noteq> 0 \<longrightarrow>
            fst (fuse_row n cp sp) ! j = round32 (a / d)"
    using nth by simp
  have b: "\<forall>j<n. \<forall>a. P ! j = Fin a \<and> row_sum P = Fin 0 \<longrightarrow>
            fst (fuse_row n cp sp) ! j = (if a = 0 then NaN else if 0 < a then PInf else NInf)"
    using nth by simp
  show ?thesis using row a b unfolding P_def by (intro conjI)
qed

theorem renormalisation_divides_by_the_sum_witness:
  "length [Fin (1 / 2), Fin (1 / 2)] = 2 \<and> length [Fin (1 / 2), Fin (1 / 4)] = 2 \<and>
   map2 fmul [Fin (1 / 2), Fin (1 / 2)] [Fin (1 / 2), Fin (1 / 4)] = [Fin (1 / 4), Fin (1 / 8)] \<and>
   row_sum (map2 fmul [Fin (1 / 2), Fin (1 / 2)] [Fin (1 / 2), Fin (1 / 4)]) = Fin (3 / 8) \<and>
   fst (fuse_row 2 [Fin (1 / 2), Fin (1 / 4)] [Fin (1 / 2), Fin (1 / 2)]) =
     [Fin (11184811 / 16777216), Fin (11184811 / 33554432)]"
  using renormalisation_divides_by_the_sum[of "[Fin (1 / 2), Fin (1 / 2)]" 2
      "[Fin (1 / 2), Fin (1 / 4)]"]
  by (simp add: row_sum_def round32_values)

theorem zero_mass_division_counterexample:
  "fold (mult_step [Fin 0, Fin 1]) [0..<2] ([Fin 1, Fin 0], Fin 0) = ([Fin 0, Fin 0], Fin 0) \<and>
   fuse_row 2 [Fin 0, Fin 1] [Fin 1, Fin 0] = ([NaN, NaN], Fin 0, - 1)"
  by (simp add: fuse_row_def mult_step_def norm_step_def upt_conv_Cons Let_def round32_values)

text \<open>
  Claim C6, as amended. The running maximum starts at \<open>0.0\<close> with class \<open>-1\<close> and
  is replaced on \<open>>=\<close> while the classes are scanned in increasing order. On every row,
  in the arithmetic of the code: when some entry of the renormalised row is \<open>>= 0\<close>,
  the best class is an index whose entry no other entry exceeds, and it is the highest
  such index, no later entry being \<open>>=\<close> it: a tie goes to the highest class index.
  When no entry is \<open>>= 0\<close> (a row of NaNs) the result is \<open>0.0\<close> and \<open>-1\<close>.
\<close>

theorem argmax_ties_to_highest_index:
  assumes "length sp = n" and "length cp = n"
  shows "\<exists>q mp mc. fuse_row n cp sp = (q, mp, mc) \<and> length q = n \<and>
     ((\<forall>j<n. \<not> fge (q ! j) (Fin 0)) \<longrightarrow> mp = Fin 0 \<and> mc = - 1) \<and>
     ((\<exists>j<n. fge (q ! j) (Fin 0)) \<longrightarrow>
        (\<exists>i<n. mc = int i \<and> mp = q ! i \<and> fge (q ! i) (Fin 0) \<and>
           (\<forall>j<n. \<not> flt (q ! i) (q ! j)) \<and>
           (\<forall>j<n. i < j \<longrightarrow> \<not> fge (q ! j) (q ! i)) \<and>
           (\<forall>j<n. q ! j = q ! i \<longrightarrow> j \<le> i)))"
proof -
  from fuse_row_scan[OF assms]
  obtain q mp mc where f: "fuse_row n cp sp = (q, mp, mc)" "length q = n"
    and m0: "fge mp (Fin 0)" and mx: "\<forall>j<n. \<not> flt mp (q ! j)"
    and alt: "(mc = - 1 \<and> mp = Fin 0 \<and> (\<forall>j<n. \<not> fge (q ! j) (Fin 0))) \<or>
      (\<exists>i<n. mc = int i \<and> mp = q ! i \<and> (\<forall>j<n. i < j \<longrightarrow> \<not> fge (q ! j) (q ! i)))"
    by blast
  have none: "(\<forall>j<n. \<not> fge (q ! j) (Fin 0)) \<longrightarrow> mp = Fin 0 \<and> mc = - 1"
    using alt m0 by auto
  have some: "(\<exists>j<n. fge (q ! j) (Fin 0)) \<longrightarrow>
        (\<exists>i<n. mc = int i \<and> mp = q ! i \<and> fge (q ! i) (Fin 0) \<and>
           (\<forall>j<n. \<not> flt (q ! i) (q ! j)) \<and>
           (\<forall>j<n. i < j \<longrightarrow> \<not> fge (q ! j) (q ! i)) \<and>
           (\<forall>j<n. q ! j = q ! i \<longrightarrow> j \<le> i))"
  proof
    assume "\<exists>j<n. fge (q ! j) (Fin 0)"
    with alt obtain i where i: "i < n" "mc = int i" "mp = q ! i"
      "\<forall>j<n. i < j \<longrightarrow> \<not> fge (q ! j) (q ! i)"
      by blast
    have self: "fge (q ! i) (q ! i)" using m0 i(3) fge_self by simp
    have last: "\<forall>j<n. q ! j = q ! i \<longrightarrow> j \<le> i"
    proof (intro allI impI)
      fix j assume j: "j < n" "q ! j = q ! i"
      show "j \<le> i"
      proof (rule ccontr)
        assume "\<not> j \<le> i"
        then have "i < j" by simp
        then have "\<not> fge (q ! j) (q ! i)" using i(4) j(1) by simp
        then show False using j(2) self by simp
      qed
    qed
    show "\<exists>i<n. mc = int i \<and> mp = q ! i \<and> fge (q ! i) (Fin 0) \<and>
           (\<forall>j<n. \<not> flt (q ! i) (q ! j)) \<and>
           (\<forall>j<n. i < j \<longrightarrow> \<not> fge (q ! j) (q ! i)) \<and>
           (\<forall>j<n. q ! j = q ! i \<longrightarrow> j \<le> i)"
      using i m0 mx last by (intro exI[of _ i]) simp
  qed
  show ?thesis using f none some by (intro exI[of _ q] exI[of _ mp] exI[of _ mc] conjI)
qed

text \<open>
  The two products of the example differ before rounding and the two quotients are
  equal after it: the tie is made by the rounding, and class 1 is selected.
\<close>

theorem argmax_ties_to_highest_index_witness:
  "length [Fin (8388609 / 16777216), Fin (1 / 2)] = 2 \<and>
   length [Fin (8388609 / 16777216), Fin (4194305 / 8388608)] = 2 \<and>
   fuse_row 2 [Fin (8388609 / 16777216), Fin (4194305 / 8388608)]
     [Fin (8388609 / 16777216), Fin (1 / 2)] = ([Fin (1 / 2), Fin (1 / 2)], Fin (1 / 2), 1)"
  using argmax_ties_to_highest_index[of "[Fin (8388609 / 16777216), Fin (1 / 2)]" 2
      "[Fin (8388609 / 16777216), Fin (4194305 / 8388608)]"]
  by (simp add: fuse_row_def mult_step_def norm_step_def upt_conv_Cons Let_def round32_values)

theorem argmax_tie_counterexample:
  "fuse_row 2 [Fin (1/2), Fin (1/2)] [Fin (1/2), Fin (1/2)] = ([Fin (1/2), Fin (1/2)], Fin (1/2), 1) \<and>
   UpdateSurfelProbabilities (host_state [[Fin (1/2), Fin (1/2)]] 2 (Fin (1/2))) 0 [Fin (1/2), Fin (1/2)] =
     Inr (host_state [[Fin (1/2), Fin (1/2)]] 2 (Fin (1/2)), 1)"
  by (simp add: UpdateSurfelProbabilities_def host_state_def fuse_row_def mult_step_def norm_step_def
        upt_conv_Cons Let_def round32_values)

text \<open>
  Claim C7, as amended. Every call that passes the assertions returns, and its result is
  \<open>max_class\<close> when \<open>max_prob >= colour_threshold_\<close> and \<open>-1\<close> otherwise. When the
  updated row has an entry \<open>>= 0\<close>, \<open>max_prob\<close> is an entry that no other exceeds:
  if it is at least the threshold the result is its class, if it is strictly below (or
  the comparison fails) the result is \<open>-1\<close>. When the updated row has no entry
  \<open>>= 0\<close> (every entry NaN after a division of zero by zero) the result is \<open>-1\<close>
  whatever the threshold. \<open>-1\<close> is the index of no class.
\<close>

theorem threshold_is_inclusive:
  assumes "0 \<le> sid" and "sid < int (length (class_probabilities s))"
    and "int (length class_probs) = num_classes s"
    and "int (length (class_probabilities s ! nat sid)) = num_classes s"
  shows "\<exists>s' r q mp mc. UpdateSurfelProbabilities s sid class_probs = Inr (s', r) \<and>
     fuse_row (nat (num_classes s)) class_probs (class_probabilities s ! nat sid) = (q, mp, mc) \<and>
     class_probabilities s' ! nat sid = q \<and>
     r = (if fge mp (colour_threshold s) then mc else - 1) \<and>
     ((\<exists>j<length q. fge (q ! j) (Fin 0)) \<longrightarrow>
        (\<exists>i<length q. mc = int i \<and> mp = q ! i \<and> (\<forall>j<length q. \<not> flt (q ! i) (q ! j)) \<and>
           (fge (q ! i) (colour_threshold s) \<longrightarrow> r = int i) \<and>
           (flt (q ! i) (colour_threshold s) \<longrightarrow> r = - 1) \<and>
           (\<not> fge (q ! i) (colour_threshold s) \<longrightarrow> r = - 1))) \<and>
     ((\<forall>j<length q. \<not> fge (q ! j) (Fin 0)) \<longrightarrow> r = - 1) \<and>
     (\<forall>c::nat. int c \<noteq> - 1)"
proof -
  define n where "n = nat (num_classes s)"
  define row where "row = class_probabilities s ! nat sid"
  have len: "length row = n" "length class_probs = n"
    using assms(3,4) by (simp_all add: n_def row_def)
  from fuse_row_scan[OF len]
  obtain q mp mc where f: "fuse_row n class_probs row = (q, mp, mc)" and lq: "length q = n"
    and m0: "fge mp (Fin 0)" and mx: "\<forall>j<n. \<not> flt mp (q ! j)"
    and alt: "(mc = - 1 \<and> mp = Fin 0 \<and> (\<forall>j<n. \<not> fge (q ! j) (Fin 0))) \<or>
      (\<exists>i<n. mc = int i \<and> mp = q ! i \<and> (\<forall>j<n. i < j \<longrightarrow> \<not> fge (q ! j) (q ! i)))"
    by blast
  define r where "r = (if fge mp (colour_threshold s) then mc else - 1)"
  define s' where "s' = s\<lparr>class_probabilities := (class_probabilities s)[nat sid := q]\<rparr>"
  have ok: "UpdateSurfelProbabilities s sid class_probs = Inr (s', r)"
    using UpdateSurfelProbabilities_ok[OF assms] f
    by (simp add: n_def row_def r_def s'_def)
  have rd: "class_probabilities s' ! nat sid = q"
    using assms(1,2) by (simp add: s'_def)
  have some: "(\<exists>j<length q. fge (q ! j) (Fin 0)) \<longrightarrow>
        (\<exists>i<length q. mc = int i \<and> mp = q ! i \<and> (\<forall>j<length q. \<not> flt (q ! i) (q ! j)) \<and>
           (fge (q ! i) (colour_threshold s) \<longrightarrow> r = int i) \<and>
           (flt (q ! i) (colour_threshold s) \<longrightarrow> r = - 1) \<and>
           (\<not> fge (q ! i) (colour_threshold s) \<longrightarrow> r = - 1))"
  proof
    assume "\<exists>j<length q. fge (q ! j) (Fin 0)"
    with alt lq obtain i where i: "i < n" "mc = int i" "mp = q ! i"
      by auto
    have "flt (q ! i) (colour_threshold s) \<longrightarrow> \<not> fge (q ! i) (colour_threshold s)"
      using flt_not_fge by blast
    then show "\<exists>i<length q. mc = int i \<and> mp = q ! i \<and> (\<forall>j<length q. \<not> flt (q ! i) (q ! j)) \<and>
           (fge (q ! i) (colour_threshold s) \<longrightarrow> r = int i) \<and>
           (flt (q ! i) (colour_threshold s) \<longrightarrow> r = - 1) \<and>
           (\<not> fge (q ! i) (colour_threshold s) \<longrightarrow> r = - 1)"
      using i mx lq by (intro exI[of _ i]) (simp add: r_def)
  qed
  have none: "(\<forall>j<length q. \<not> fge (q ! j) (Fin 0)) \<longrightarrow> r = - 1"
    using alt m0 lq by (auto simp add: r_def)
  have "r = (if fge mp (colour_threshold s) then mc else - 1)" by (simp add: r_def)
  then show ?thesis
    using ok f rd some none unfolding n_def row_def
    by (intro exI[of _ s'] exI[of _ r] exI[of _ q] exI[of _ mp] exI[of _ mc] conjI) simp_all
qed

text \<open>
  The uniform prior of three classes, in single precision, observed with
  \<open>(0.9, 0.05, 0.05)\<close>: the maximum of the updated row is the float
  \<open>15099493 / 2 ^ 24\<close>, just below \<open>0.9\<close>; at a threshold equal to it the result
  is class 0.
\<close>

theorem threshold_is_inclusive_witness:
  "(0::int) \<le> 0 \<and>
   0 < int (length (class_probabilities (host_state
         [[Fin (11184811 / 33554432), Fin (11184811 / 33554432), Fin (11184811 / 33554432)]] 3
         (Fin (15099493 / 16777216))))) \<and>
   int (length [Fin (7549747 / 8388608), Fin (13421773 / 268435456), Fin (13421773 / 268435456)]) =
     num_classes (host_state
         [[Fin (11184811 / 33554432), Fin (11184811 / 33554432), Fin (11184811 / 33554432)]] 3
         (Fin (15099493 / 16777216))) \<and>
   UpdateSurfelProbabilities (host_state
         [[Fin (11184811 / 33554432), Fin (11184811 / 33554432), Fin (11184811 / 33554432)]] 3
         (Fin (15099493 / 16777216))) 0
       [Fin (7549747 / 8388608), Fin (13421773 / 268435456), Fin (13421773 / 268435456)] =
     Inr (host_state
         [[Fin (15099493 / 16777216), Fin (3355443 / 67108864), Fin (3355443 / 67108864)]] 3
         (Fin (15099493 / 16777216)), 0)"
  using threshold_is_inclusive[of 0 "host_state
         [[Fin (11184811 / 33554432), Fin (11184811 / 33554432), Fin (11184811 / 33554432)]] 3
         (Fin (15099493 / 16777216))"
       "[Fin (7549747 / 8388608), Fin (13421773 / 268435456), Fin (13421773 / 268435456)]"]
  by (simp add: UpdateSurfelProbabilities_def host_state_def fuse_row_def mult_step_def norm_step_def
        upt_conv_Cons Let_def round32_values)

text \<open>
  The row \<open>(1, 0)\<close>, whose maximum is \<open>1\<close>, observed with \<open>(0, 1)\<close> at the
  threshold \<open>0\<close>: the updated row is \<open>(NaN, NaN)\<close>, \<open>max_prob\<close> is still \<open>0.0\<close>,
  the comparison with the threshold succeeds and the value returned is \<open>-1\<close>.
\<close>

theorem confident_sentinel_counterexample:
  "fge (Fin 1) (colour_threshold (host_state [[Fin 1, Fin 0]] 2 (Fin 0))) \<and>
   fuse_row 2 [Fin 0, Fin 1] [Fin 1, Fin 0] = ([NaN, NaN], Fin 0, - 1) \<and>
   fge (Fin 0) (colour_threshold (host_state [[Fin 1, Fin 0]] 2 (Fin 0))) \<and>
   UpdateSurfelProbabilities (host_state [[Fin 1, Fin 0]] 2 (Fin 0)) 0 [Fin 0, Fin 1] =
     Inr (host_state [[NaN, NaN]] 2 (Fin 0), - 1)"
  by (simp add: UpdateSurfelProbabilities_def host_state_def fuse_row_def mult_step_def norm_step_def
        upt_conv_Cons Let_def round32_values)

section \<open>The write-back filter\<close>

lemma accepted_iff: "accepted x \<longleftrightarrow> (\<exists>a. x = Fin a \<and> 0 < a \<and> a < 1)"
  by (cases x) (simp_all add: accepted_def)

lemma write_back_cells:
  assumes "n \<le> mc" and "length t = nc * mc" and "n * nc \<le> length r"
  shows "\<exists>t'. write_back r (map int [0..<n]) nc (int mc) t = Inr t' \<and> length t' = length t \<and>
           (\<forall>i<n. \<forall>j<nc. t' ! (j * mc + i) =
               (if accepted (r ! (i * nc + j)) then r ! (i * nc + j) else t ! (j * mc + i))) \<and>
           (\<forall>k<length t. (\<forall>i<n. \<forall>j<nc. k \<noteq> j * mc + i) \<longrightarrow> t' ! k = t ! k)"
  using outer_loop[OF assms refl, of n] by (simp add: write_back_def)

text \<open>
  Claim C4. With at most \<open>max_components_\<close> live rows, a table of
  \<open>num_classes_ * max_components_\<close> cells and a result for every live row and class,
  the write-back returns; the cell of row \<open>i\<close> and class \<open>j\<close> holds the smoothing result
  if that result is strictly between 0 and 1 and its previous value otherwise, and no
  other cell changes. A result is accepted exactly when it is a finite value strictly
  between 0 and 1: 0.0, 1.0, NaN and the infinities are not.
\<close>

theorem write_back_filter:
  assumes "n \<le> mc" and "length t = nc * mc" and "n * nc \<le> length r"
  shows "(\<exists>t'. write_back r (map int [0..<n]) nc (int mc) t = Inr t' \<and> length t' = length t \<and>
           (\<forall>i<n. \<forall>j<nc. t' ! (j * mc + i) =
               (if accepted (r ! (i * nc + j)) then r ! (i * nc + j) else t ! (j * mc + i))) \<and>
           (\<forall>k<length t. (\<forall>i<n. \<forall>j<nc. k \<noteq> j * mc + i) \<longrightarrow> t' ! k = t ! k)) \<and>
         (\<forall>x. accepted x \<longleftrightarrow> (\<exists>a. x = Fin a \<and> 0 < a \<and> a < 1)) \<and>
         \<not> accepted (Fin 0) \<and> \<not> accepted (Fin 1) \<and> \<not> accepted NaN \<and>
         \<not> accepted PInf \<and> \<not> accepted NInf"
  using write_back_cells[OF assms] accepted_iff by (simp add: accepted_def)

theorem write_back_filter_witness:
  "(2::nat) \<le> 2 \<and> length [Fin (1/10), Fin (2/10), Fin (3/10), Fin (4/10)] = 2 * 2 \<and>
   2 * 2 \<le> length [Fin (1/2), Fin 0, Fin 1, NaN] \<and>
   write_back [Fin (1/2), Fin 0, Fin 1, NaN] (map int [0..<2]) 2 (int 2)
     [Fin (1/10), Fin (2/10), Fin (3/10), Fin (4/10)] =
     Inr [Fin (1/2), Fin (2/10), Fin (3/10), Fin (4/10)]"
  using write_back_filter[of 2 2 "[Fin (1/10), Fin (2/10), Fin (3/10), Fin (4/10)]" 2
      "[Fin (1/2), Fin 0, Fin 1, NaN]"]
  by (simp add: write_back_def write_back_cell_def cell_def accepted_def upt_conv_Cons Let_def)

section \<open>The row sum after an update\<close>




section \<open>The patch selection of the argmax image\<close>

lemma flt_trans: "flt a b \<Longrightarrow> flt b c \<Longrightarrow> flt a c"
  by (cases a; cases b; cases c) simp_all

lemma flt_total_trans: "flt (Fin 0) b \<Longrightarrow> \<not> flt a b \<Longrightarrow> flt a c \<Longrightarrow> flt b c"
  by (cases a; cases b; cases c) simp_all

lemma flt_irrefl: "\<not> flt a a"
  by (cases a) simp_all

lemma select_invariant:
  fixes prob :: "int \<Rightarrow> fval" and cls :: "int \<Rightarrow> int" and valid :: "int \<Rightarrow> bool"
  assumes sel: "\<And>sid mp mc. sel sid (mp, mc) =
      (if valid sid \<and> flt mp (prob sid) then (prob sid, cls sid) else (mp, mc))"
    and V: "\<And>sids. V sids = filter (\<lambda>sid. valid sid \<and> flt (Fin 0) (prob sid)) sids"
  shows "(V sids = [] \<and> fold sel sids (Fin 0, 0) = (Fin 0, 0)) \<or>
         (\<exists>k<length (V sids). fold sel sids (Fin 0, 0) = (prob (V sids ! k), cls (V sids ! k)) \<and>
            (\<forall>j<length (V sids). \<not> flt (prob (V sids ! k)) (prob (V sids ! j))) \<and>
            (\<forall>j<k. flt (prob (V sids ! j)) (prob (V sids ! k))))"
proof (induction sids rule: rev_induct)
  case Nil
  then show ?case by (simp add: V)
next
  case (snoc sid sids)
  obtain mp mc where st: "fold sel sids (Fin 0, 0) = (mp, mc)"
    by (cases "fold sel sids (Fin 0, 0)") auto
  have pos: "\<And>j. j < length (V sids) \<Longrightarrow> flt (Fin 0) (prob (V sids ! j))"
  proof -
    fix j assume "j < length (V sids)"
    then have "V sids ! j \<in> set (V sids)" by simp
    then show "flt (Fin 0) (prob (V sids ! j))" unfolding V by simp
  qed
  have mp0: "mp = Fin 0 \<or> flt (Fin 0) mp"
    using snoc.IH st pos by auto
  have new: "fold sel (sids @ [sid]) (Fin 0, 0) =
      (if valid sid \<and> flt mp (prob sid) then (prob sid, cls sid) else (mp, mc))"
    by (simp add: st sel)
  show ?case
  proof (cases "valid sid \<and> flt (Fin 0) (prob sid)")
    case False
    have "\<not> (valid sid \<and> flt mp (prob sid))"
      using False mp0 flt_trans[of "Fin 0" mp "prob sid"] by auto
    then have same: "fold sel (sids @ [sid]) (Fin 0, 0) = fold sel sids (Fin 0, 0)"
      using new st by auto
    have "V (sids @ [sid]) = V sids" using False by (simp add: V)
    then show ?thesis using snoc.IH same by simp
  next
    case True
    have Vs: "V (sids @ [sid]) = V sids @ [sid]" using True by (simp add: V)
    show ?thesis
    proof (cases "flt mp (prob sid)")
      case gt: True
      have st': "fold sel (sids @ [sid]) (Fin 0, 0) = (prob sid, cls sid)"
        using new gt True by simp
      have earlier: "flt (prob (V sids ! j)) (prob sid)" if j: "j < length (V sids)" for j
      proof -
        from snoc.IH j obtain k where k: "k < length (V sids)"
          "fold sel sids (Fin 0, 0) = (prob (V sids ! k), cls (V sids ! k))"
          "\<forall>j<length (V sids). \<not> flt (prob (V sids ! k)) (prob (V sids ! j))"
          by auto
        have "mp = prob (V sids ! k)" using k(2) st by simp
        then show ?thesis
          using flt_total_trans[OF pos[OF j], of mp "prob sid"] k(3) j gt by simp
      qed
      have a: "\<forall>j<length (V sids @ [sid]). \<not> flt (prob sid) (prob ((V sids @ [sid]) ! j))"
      proof (intro allI impI)
        fix j assume "j < length (V sids @ [sid])"
        then consider "j < length (V sids)" | "j = length (V sids)" by fastforce
        then show "\<not> flt (prob sid) (prob ((V sids @ [sid]) ! j))"
        proof cases
          case 1
          have "flt (prob (V sids ! j)) (prob sid)" by (rule earlier[OF 1])
          then have "\<not> flt (prob sid) (prob (V sids ! j))"
            using flt_trans[of "prob sid" "prob (V sids ! j)" "prob sid"] flt_irrefl by blast
          then show ?thesis using 1 by (simp add: nth_append)
        next
          case 2
          then show ?thesis by (simp add: flt_irrefl)
        qed
      qed
      have b: "\<forall>j<length (V sids). flt (prob ((V sids @ [sid]) ! j)) (prob sid)"
        using earlier by (simp add: nth_append)
      have "length (V sids) < length (V (sids @ [sid]))" by (simp add: Vs)
      moreover have "fold sel (sids @ [sid]) (Fin 0, 0) =
          (prob (V (sids @ [sid]) ! length (V sids)), cls (V (sids @ [sid]) ! length (V sids)))"
        using st' by (simp add: Vs)
      moreover have "\<forall>j<length (V (sids @ [sid])).
          \<not> flt (prob (V (sids @ [sid]) ! length (V sids))) (prob (V (sids @ [sid]) ! j))"
        using a by (simp add: Vs)
      moreover have "\<forall>j<length (V sids).
          flt (prob (V (sids @ [sid]) ! j)) (prob (V (sids @ [sid]) ! length (V sids)))"
        using b by (simp add: Vs)
      ultimately show ?thesis by blast
    next
      case le: False
      have same: "fold sel (sids @ [sid]) (Fin 0, 0) = (mp, mc)"
        using new le by simp
      have "V sids \<noteq> []"
      proof
        assume "V sids = []"
        then have "mp = Fin 0" using snoc.IH st by auto
        then show False using le True by simp
      qed
      with snoc.IH obtain k where k: "k < length (V sids)"
          "fold sel sids (Fin 0, 0) = (prob (V sids ! k), cls (V sids ! k))"
          "\<forall>j<length (V sids). \<not> flt (prob (V sids ! k)) (prob (V sids ! j))"
          "\<forall>j<k. flt (prob (V sids ! j)) (prob (V sids ! k))"
        by auto
      have mpk: "mp = prob (V sids ! k)" "mc = cls (V sids ! k)" using k(2) st by simp_all
      have "k < length (V (sids @ [sid]))" using k(1) by (simp add: Vs)
      moreover have "fold sel (sids @ [sid]) (Fin 0, 0) =
          (prob (V (sids @ [sid]) ! k), cls (V (sids @ [sid]) ! k))"
        using same mpk k(1) by (simp add: Vs nth_append)
      moreover have "\<forall>j<length (V (sids @ [sid])).
          \<not> flt (prob (V (sids @ [sid]) ! k)) (prob (V (sids @ [sid]) ! j))"
        using k(1,3) le mpk by (auto simp: Vs nth_append less_Suc_eq)
      moreover have "\<forall>j<k. flt (prob (V (sids @ [sid]) ! j)) (prob (V (sids @ [sid]) ! k))"
        using k(1,4) by (simp add: Vs nth_append)
      ultimately show ?thesis by blast
    qed
  qed
qed

lemma collect_all:
  assumes "\<forall>x\<in>set xs. \<exists>v. f x = Inr v"
  shows "collect f xs = Inr (map (\<lambda>x. projr (f x)) xs)"
proof -
  have "iterate (\<lambda>x acc. case f x of Inl e \<Rightarrow> Inl e | Inr v \<Rightarrow> Inr (acc @ [v])) xs acc =
        Inr (acc @ map (\<lambda>x. projr (f x)) xs)" for acc
    using assms
  proof (induction xs arbitrary: acc)
    case Nil
    then show ?case by simp
  next
    case (Cons x xs)
    then obtain v where v: "f x = Inr v" by auto
    have "\<forall>x\<in>set xs. \<exists>v. f x = Inr v" using Cons.prems by simp
    from Cons.IH[OF this, of "acc @ [v]"] v show ?case by simp
  qed
  from this[of "[]"] show ?thesis by (simp add: collect_def)
qed

lemma iterate_total:
  assumes "\<And>x st. x \<in> set xs \<Longrightarrow> body x st = Inr (g x st)"
  shows "iterate body xs st = Inr (fold g xs st)"
  using assms by (induction xs arbitrary: st) simp_all

lemma iterate_map: "iterate g (map h ys) st = iterate (\<lambda>y. g (h y)) ys st"
  by (induction ys arbitrary: st) (simp_all split: sum.splits)

lemma iterate_cong_set:
  "(\<And>x st. x \<in> set xs \<Longrightarrow> f x st = g x st) \<Longrightarrow> iterate f xs st = iterate g xs st"
  by (induction xs arbitrary: st) (simp_all split: sum.splits)

lemma iterate_nested:
  "iterate (\<lambda>x. iterate (f x) ys) xs st = iterate (\<lambda>(x, y). f x y) (List.product xs ys) st"
proof (induction xs arbitrary: st)
  case Nil
  then show ?case by simp
next
  case (Cons x xs)
  have "iterate (\<lambda>(x, y). f x y) (map (Pair x) ys) st = iterate (f x) ys st"
    by (simp add: iterate_map)
  then show ?case using Cons.IH by (simp add: iterate_append split: sum.splits)
qed

lemma patch_loops:
  assumes "length surfel_ids = 640 * 480" and "h < 240" and "w < 320"
  shows "iterate (\<lambda>x. iterate (patch_step s surfel_ids h w x) [0..<2]) [0..<2] st =
         iterate (consider_surfel s) (patch_ids surfel_ids h w) st"
proof -
  have r: "((h * 2) + y) * 640 + (w * 2 + x) < length surfel_ids" if "x < 2" "y < 2" for x y
  proof -
    have "h * 2 + y \<le> 479" using assms(2) that by simp
    then have "(h * 2 + y) * 640 \<le> 479 * 640" by (rule mult_le_mono1)
    moreover have "w * 2 + x \<le> 639" using assms(3) that by simp
    ultimately show ?thesis using assms(1) by simp
  qed
  have p: "List.product [0..<2] [0..<2] = [(0, 0), (0, 1), (1, 0), (1, 1::nat)]"
    by (simp add: upt_conv_Cons)
  have "iterate (\<lambda>x. iterate (patch_step s surfel_ids h w x) [0..<2]) [0..<2] st =
        iterate (\<lambda>(x, y). patch_step s surfel_ids h w x y) [(0, 0), (0, 1), (1, 0), (1, 1)] st"
    unfolding iterate_nested p ..
  also have "\<dots> = iterate (\<lambda>(x, y). consider_surfel s (surfel_ids ! (((h * 2) + y) * 640 + (w * 2 + x))))
        [(0, 0), (0, 1), (1, 0), (1, 1)] st"
  proof (rule iterate_cong_set)
    fix xy :: "nat \<times> nat" and st'
    assume "xy \<in> set [(0, 0), (0, 1), (1, 0), (1, 1)]"
    then have "fst xy < 2" "snd xy < 2" by auto
    from r[OF this] show "(case xy of (x, y) \<Rightarrow> patch_step s surfel_ids h w x y) st' =
        (case xy of (x, y) \<Rightarrow> consider_surfel s (surfel_ids ! (((h * 2) + y) * 640 + (w * 2 + x)))) st'"
      by (simp add: patch_step_def case_prod_beta)
  qed
  also have "\<dots> = iterate (consider_surfel s) (patch_ids surfel_ids h w) st"
    unfolding patch_ids_def iterate_map by (rule iterate_cong_set) (simp add: case_prod_beta)
  finally show ?thesis .
qed

lemma export_pixel:
  assumes ids: "length surfel_ids = 640 * 480"
    and cts: "current_table_size s \<le> max_components s"
    and len: "int (length (blob_data (class_max_gpu s))) = 2 * max_components s"
    and conv: "\<forall>sid. 0 < sid \<and> sid < current_table_size s \<longrightarrow>
           (\<exists>ci. float_to_int (blob_data (class_max_gpu s) ! nat sid) = Inr ci)"
    and hw: "h < 240" "w < 320"
  shows "\<exists>p ci. argmax_pixel s surfel_ids h w = Inr (word_of_int ci, word_of_int ci, word_of_int ci) \<and>
     (filter (confident s) (patch_ids surfel_ids h w) = [] \<longrightarrow> ci = 0) \<and>
     (filter (confident s) (patch_ids surfel_ids h w) \<noteq> [] \<longrightarrow>
        (\<exists>k<length (filter (confident s) (patch_ids surfel_ids h w)). \<exists>c.
            max_prob s (filter (confident s) (patch_ids surfel_ids h w) ! k) = Some p \<and>
            max_class s (filter (confident s) (patch_ids surfel_ids h w) ! k) = Some c \<and>
            float_to_int c = Inr ci \<and>
            (\<forall>j<length (filter (confident s) (patch_ids surfel_ids h w)). \<forall>p'.
               max_prob s (filter (confident s) (patch_ids surfel_ids h w) ! j) = Some p' \<longrightarrow> \<not> flt p p') \<and>
            (\<forall>j<k. \<forall>p'.
               max_prob s (filter (confident s) (patch_ids surfel_ids h w) ! j) = Some p' \<longrightarrow> flt p' p)))"
proof -
  define buf where "buf = blob_data (class_max_gpu s)"
  define valid where "valid sid \<longleftrightarrow> 0 < sid \<and> sid < current_table_size s" for sid
  define prob where "prob sid = buf ! nat (max_components s + sid)" for sid
  define cls where "cls sid = projr (float_to_int (buf ! nat sid))" for sid
  define sel where "sel sid = (\<lambda>(mp :: fval, mc :: int).
      if valid sid \<and> flt mp (prob sid) then (prob sid, cls sid) else (mp, mc))" for sid
  define V where "V sids = filter (\<lambda>sid. valid sid \<and> flt (Fin 0) (prob sid)) sids" for sids
  have mp: "max_prob s sid = Some (prob sid)" if "valid sid" for sid
    using that cts len by (simp add: valid_def max_prob_def cache_at_def prob_def buf_def)
  have mc: "max_class s sid = Some (buf ! nat sid)" if "valid sid" for sid
    using that cts len by (simp add: valid_def max_class_def cache_at_def buf_def)
  have cv: "float_to_int (buf ! nat sid) = Inr (cls sid)" if "valid sid" for sid
  proof -
    from conv that obtain ci where "float_to_int (buf ! nat sid) = Inr ci"
      unfolding valid_def buf_def by blast
    then show ?thesis by (simp add: cls_def)
  qed
  have step: "consider_surfel s sid st = Inr (sel sid st)" for sid st
  proof (cases "valid sid")
    case True
    obtain a b where st: "st = (a, b)" by (cases st)
    have v: "0 < sid \<and> sid < current_table_size s" using True by (simp add: valid_def)
    show ?thesis
      unfolding st using v True
      by (simp add: consider_surfel_def mp[OF True] mc[OF True] cv[OF True] sel_def)
  next
    case False
    obtain a b where st: "st = (a, b)" by (cases st)
    have v: "\<not> (0 < sid \<and> sid < current_table_size s)" using False by (simp add: valid_def)
    show ?thesis
      unfolding st consider_surfel_def sel_def prod.case using v False by auto
  qed
  have loop: "iterate (consider_surfel s) sids st = Inr (fold sel sids st)" for sids st
    by (rule iterate_total) (rule step)
  obtain p ci where pc: "fold sel (patch_ids surfel_ids h w) (Fin 0, 0) = (p, ci)"
    by (cases "fold sel (patch_ids surfel_ids h w) (Fin 0, 0)") auto
  have px: "argmax_pixel s surfel_ids h w = Inr (word_of_int ci, word_of_int ci, word_of_int ci)"
    unfolding argmax_pixel_def patch_loops[OF ids hw] loop pc by simp
  have conf: "confident s sid \<longleftrightarrow> valid sid \<and> flt (Fin 0) (prob sid)" for sid
  proof (cases "valid sid")
    case True
    then show ?thesis using mp[OF True] by (simp add: confident_def valid_def)
  next
    case False
    then show ?thesis by (auto simp: confident_def valid_def)
  qed
  have VV: "filter (confident s) sids = V sids" for sids
    unfolding V_def using conf by (intro filter_cong) auto
  have Vvalid: "valid (V sids ! j)" if "j < length (V sids)" for sids j
  proof -
    have "V sids ! j \<in> set (V sids)" using that by simp
    then show ?thesis unfolding V_def by simp
  qed
  have sel_eq: "\<And>sid mp mc. sel sid (mp, mc) =
      (if valid sid \<and> flt mp (prob sid) then (prob sid, cls sid) else (mp, mc))"
    by (simp add: sel_def)
  have V_eq: "\<And>sids. V sids = filter (\<lambda>sid. valid sid \<and> flt (Fin 0) (prob sid)) sids"
    by (simp add: V_def)
  let ?P = "patch_ids surfel_ids h w"
  from select_invariant[of sel valid prob cls V ?P, OF sel_eq V_eq]
  have inv: "(V ?P = [] \<and> fold sel ?P (Fin 0, 0) = (Fin 0, 0)) \<or>
         (\<exists>k<length (V ?P). fold sel ?P (Fin 0, 0) = (prob (V ?P ! k), cls (V ?P ! k)) \<and>
            (\<forall>j<length (V ?P). \<not> flt (prob (V ?P ! k)) (prob (V ?P ! j))) \<and>
            (\<forall>j<k. flt (prob (V ?P ! j)) (prob (V ?P ! k))))" .
  have e: "V ?P = [] \<longrightarrow> ci = 0" using inv pc by auto
  have n: "V ?P \<noteq> [] \<longrightarrow>
        (\<exists>k<length (V ?P). \<exists>c.
            max_prob s (V ?P ! k) = Some p \<and> max_class s (V ?P ! k) = Some c \<and>
            float_to_int c = Inr ci \<and>
            (\<forall>j<length (V ?P). \<forall>p'. max_prob s (V ?P ! j) = Some p' \<longrightarrow> \<not> flt p p') \<and>
            (\<forall>j<k. \<forall>p'. max_prob s (V ?P ! j) = Some p' \<longrightarrow> flt p' p))"
  proof
    assume "V ?P \<noteq> []"
    with inv pc obtain k where k: "k < length (V ?P)" "p = prob (V ?P ! k)" "ci = cls (V ?P ! k)"
      "\<forall>j<length (V ?P). \<not> flt (prob (V ?P ! k)) (prob (V ?P ! j))"
      "\<forall>j<k. flt (prob (V ?P ! j)) (prob (V ?P ! k))"
      by auto
    have vk: "valid (V ?P ! k)" by (rule Vvalid[OF k(1)])
    have a: "max_prob s (V ?P ! k) = Some p" using mp[OF vk] k(2) by simp
    have b: "max_class s (V ?P ! k) = Some (buf ! nat (V ?P ! k))" by (rule mc[OF vk])
    have c: "float_to_int (buf ! nat (V ?P ! k)) = Inr ci" using cv[OF vk] k(3) by simp
    have d: "\<forall>j<length (V ?P). \<forall>p'. max_prob s (V ?P ! j) = Some p' \<longrightarrow> \<not> flt p p'"
    proof (intro allI impI)
      fix j p' assume j: "j < length (V ?P)" and "max_prob s (V ?P ! j) = Some p'"
      then have "p' = prob (V ?P ! j)" using mp[OF Vvalid[OF j]] by simp
      then show "\<not> flt p p'" using k(2,4) j by simp
    qed
    have f: "\<forall>j<k. \<forall>p'. max_prob s (V ?P ! j) = Some p' \<longrightarrow> flt p' p"
    proof (intro allI impI)
      fix j p' assume j: "j < k" and "max_prob s (V ?P ! j) = Some p'"
      then have "p' = prob (V ?P ! j)" using mp[OF Vvalid, of j ?P] k(1) by simp
      then show "flt p' p" using k(2,5) j by simp
    qed
    show "\<exists>k<length (V ?P). \<exists>c.
            max_prob s (V ?P ! k) = Some p \<and> max_class s (V ?P ! k) = Some c \<and>
            float_to_int c = Inr ci \<and>
            (\<forall>j<length (V ?P). \<forall>p'. max_prob s (V ?P ! j) = Some p' \<longrightarrow> \<not> flt p p') \<and>
            (\<forall>j<k. \<forall>p'. max_prob s (V ?P ! j) = Some p' \<longrightarrow> flt p' p)"
      using k(1) a b c d f by blast
  qed
  show ?thesis unfolding VV using px e n by blast
qed

text \<open>
  Claim C8, as amended. For every output pixel \<open>(h, w)\<close> of the 320x240 image the call
  returns an image whose pixel carries one class value in all three channels. Among the
  four identifiers of the 2x2 patch at \<open>(2h, 2w)\<close>, taken in the order of the loops,
  those with \<open>0 < id < current_table_size_\<close> and a cached probability strictly above
  0.0 compete: the value is the cached class (converted to \<open>int\<close>, stored in a byte) of
  the first of them whose cached probability no other exceeds; when none competes the
  value is 0.
\<close>

theorem argmax_export_selects_most_confident:
  assumes "length surfel_ids = 640 * 480"
    and "current_table_size s \<le> max_components s"
    and "int (length (blob_data (class_max_gpu s))) = 2 * max_components s"
    and "\<forall>sid. 0 < sid \<and> sid < current_table_size s \<longrightarrow>
           (\<exists>ci. float_to_int (blob_data (class_max_gpu s) ! nat sid) = Inr ci)"
    and "h < 240" and "w < 320"
  shows "\<exists>img p ci. SaveArgMaxPredictions s surfel_ids = Inr img \<and> length img = 240 \<and>
     length (img ! h) = 320 \<and>
     img ! h ! w = (word_of_int ci, word_of_int ci, word_of_int ci) \<and>
     (filter (confident s) (patch_ids surfel_ids h w) = [] \<longrightarrow> ci = 0) \<and>
     (filter (confident s) (patch_ids surfel_ids h w) \<noteq> [] \<longrightarrow>
        (\<exists>k<length (filter (confident s) (patch_ids surfel_ids h w)). \<exists>c.
            max_prob s (filter (confident s) (patch_ids surfel_ids h w) ! k) = Some p \<and>
            max_class s (filter (confident s) (patch_ids surfel_ids h w) ! k) = Some c \<and>
            float_to_int c = Inr ci \<and>
            (\<forall>j<length (filter (confident s) (patch_ids surfel_ids h w)). \<forall>p'.
               max_prob s (filter (confident s) (patch_ids surfel_ids h w) ! j) = Some p' \<longrightarrow> \<not> flt p p') \<and>
            (\<forall>j<k. \<forall>p'.
               max_prob s (filter (confident s) (patch_ids surfel_ids h w) ! j) = Some p' \<longrightarrow> flt p' p)))"
proof -
  have px: "\<exists>v. argmax_pixel s surfel_ids h' w' = Inr v" if "h' < 240" "w' < 320" for h' w'
    using export_pixel[OF assms(1-4) that] by blast
  have row: "collect (\<lambda>w. argmax_pixel s surfel_ids h' w) [0..<320] =
      Inr (map (\<lambda>w. projr (argmax_pixel s surfel_ids h' w)) [0..<320])" if "h' < 240" for h'
    by (rule collect_all) (use px[OF that] in simp)
  have "SaveArgMaxPredictions s surfel_ids =
      Inr (map (\<lambda>h. projr (collect (\<lambda>w. argmax_pixel s surfel_ids h w) [0..<320])) [0..<240])"
    unfolding SaveArgMaxPredictions_def by (rule collect_all) (use row in simp)
  then have img: "SaveArgMaxPredictions s surfel_ids =
      Inr (map (\<lambda>h. map (\<lambda>w. projr (argmax_pixel s surfel_ids h w)) [0..<320]) [0..<240])"
    using row by (simp cong: map_cong)
  define img where "img = map (\<lambda>h. map (\<lambda>w. projr (argmax_pixel s surfel_ids h w)) [0..<320]) [0..<240]"
  have l: "length img = 240" "length (img ! h) = 320"
    using assms(5) by (simp_all add: img_def)
  have at: "img ! h ! w = projr (argmax_pixel s surfel_ids h w)"
    using assms(5,6) by (simp add: img_def)
  from export_pixel[OF assms] obtain p ci where
    pc: "argmax_pixel s surfel_ids h w = Inr (word_of_int ci, word_of_int ci, word_of_int ci)"
    and rest: "(filter (confident s) (patch_ids surfel_ids h w) = [] \<longrightarrow> ci = 0) \<and>
     (filter (confident s) (patch_ids surfel_ids h w) \<noteq> [] \<longrightarrow>
        (\<exists>k<length (filter (confident s) (patch_ids surfel_ids h w)). \<exists>c.
            max_prob s (filter (confident s) (patch_ids surfel_ids h w) ! k) = Some p \<and>
            max_class s (filter (confident s) (patch_ids surfel_ids h w) ! k) = Some c \<and>
            float_to_int c = Inr ci \<and>
            (\<forall>j<length (filter (confident s) (patch_ids surfel_ids h w)). \<forall>p'.
               max_prob s (filter (confident s) (patch_ids surfel_ids h w) ! j) = Some p' \<longrightarrow> \<not> flt p p') \<and>
            (\<forall>j<k. \<forall>p'.
               max_prob s (filter (confident s) (patch_ids surfel_ids h w) ! j) = Some p' \<longrightarrow> flt p' p)))"
    by blast
  have "img ! h ! w = (word_of_int ci, word_of_int ci, word_of_int ci)"
    using at pc by simp
  then show ?thesis using img l rest unfolding img_def[symmetric] by blast
qed

theorem argmax_export_selects_most_confident_witness:
  "length (replicate 307200 (1::int)) = 640 * 480 \<and>
   current_table_size (summary_state [Fin 0, Fin 3, Fin 0, Fin (8/10)] 2 2) \<le>
     max_components (summary_state [Fin 0, Fin 3, Fin 0, Fin (8/10)] 2 2) \<and>
   int (length (blob_data (class_max_gpu (summary_state [Fin 0, Fin 3, Fin 0, Fin (8/10)] 2 2)))) =
     2 * max_components (summary_state [Fin 0, Fin 3, Fin 0, Fin (8/10)] 2 2) \<and>
   (0::nat) < 240 \<and> (0::nat) < 320 \<and>
   (\<exists>img. SaveArgMaxPredictions (summary_state [Fin 0, Fin 3, Fin 0, Fin (8/10)] 2 2)
             (replicate 307200 1) = Inr img \<and> img ! 0 ! 0 = (3, 3, 3))"
proof -
  let ?s = "summary_state [Fin 0, Fin 3, Fin 0, Fin (8/10)] 2 2"
  let ?ids = "replicate 307200 (1::int)"
  have a: "length ?ids = 640 * 480" by simp
  have b: "current_table_size ?s \<le> max_components ?s" by (simp add: summary_state_def)
  have c: "int (length (blob_data (class_max_gpu ?s))) = 2 * max_components ?s"
    by (simp add: summary_state_def)
  have d: "\<forall>sid. 0 < sid \<and> sid < current_table_size ?s \<longrightarrow>
           (\<exists>ci. float_to_int (blob_data (class_max_gpu ?s) ! nat sid) = Inr ci)"
  proof (intro allI impI)
    fix sid :: int assume "0 < sid \<and> sid < current_table_size ?s"
    then have "sid = 1" by (simp add: summary_state_def)
    then show "\<exists>ci. float_to_int (blob_data (class_max_gpu ?s) ! nat sid) = Inr ci"
      by (simp add: summary_state_def float_to_int_def)
  qed
  have V: "filter (confident ?s) (patch_ids ?ids 0 0) = [1, 1, 1, 1]"
    by (simp add: patch_ids_def confident_def max_prob_def cache_at_def summary_state_def)
  from argmax_export_selects_most_confident[OF a b c d, of 0 0]
  obtain img p ci k cc where r: "SaveArgMaxPredictions ?s ?ids = Inr img"
    "img ! 0 ! 0 = (word_of_int ci, word_of_int ci, word_of_int ci)"
    "k < length [1, 1, 1, 1 :: int]" "max_class ?s ([1, 1, 1, 1] ! k) = Some cc" "float_to_int cc = Inr ci"
    unfolding V by auto
  have "[1, 1, 1, 1 :: int] ! k \<in> set [1, 1, 1, 1]" using r(3) by (rule nth_mem)
  then have "[1, 1, 1, 1 :: int] ! k = 1" by simp
  then have "cc = Fin 3" using r(4) by (simp add: max_class_def cache_at_def summary_state_def)
  then have "ci = 3" using r(5) by (simp add: float_to_int_def)
  then have "img ! 0 ! 0 = (3, 3, 3)" using r(2) by simp
  then show ?thesis using a b c r(1) by simp
qed

theorem argmax_export_zero_probability_counterexample:
  "patch_ids (replicate 307200 1) 0 0 = [1, 1, 1, 1] \<and>
   (0::int) < 1 \<and> 1 < current_table_size (summary_state [Fin 0, Fin 3, Fin 0, Fin 0] 2 2) \<and>
   max_prob (summary_state [Fin 0, Fin 3, Fin 0, Fin 0] 2 2) 1 = Some (Fin 0) \<and>
   max_class (summary_state [Fin 0, Fin 3, Fin 0, Fin 0] 2 2) 1 = Some (Fin 3) \<and>
   argmax_pixel (summary_state [Fin 0, Fin 3, Fin 0, Fin 0] 2 2) (replicate 307200 1) 0 0 = Inr (0, 0, 0) \<and>
   max_prob (summary_state [Fin 0, Fin (- 1), Fin 0, Fin (- 1)] 2 2) 1 = Some (Fin (- 1)) \<and>
   max_class (summary_state [Fin 0, Fin (- 1), Fin 0, Fin (- 1)] 2 2) 1 = Some (Fin (- 1)) \<and>
   argmax_pixel (summary_state [Fin 0, Fin (- 1), Fin 0, Fin (- 1)] 2 2) (replicate 307200 1) 0 0 = Inr (0, 0, 0)"
  by (simp add: argmax_pixel_def patch_step_def consider_surfel_def patch_ids_def max_prob_def
      max_class_def cache_at_def summary_state_def upt_conv_Cons)

section \<open>The colour scheme loader\<close>

lemma load_lines_store_rows:
  "0 < lno \<Longrightarrow> load_lines nc cs lno file_lines = store_rows nc cs (drop (3 - lno) file_lines)"
proof (induction file_lines arbitrary: cs lno)
  case Nil
  then show ?case by simp
next
  case (Cons str rest)
  show ?case
  proof (cases "2 < lno")
    case True
    then have d: "3 - lno = 0" "3 - (lno + 1) = 0" by simp_all
    show ?thesis
      using True Cons.IH[of "lno + 1"] d
      by (auto split: sum.splits)
  next
    case False
    then have "3 - lno = Suc (3 - (lno + 1))" using Cons.prems by simp
    then show ?thesis using False Cons.IH[of "lno + 1" cs] by simp
  qed
qed

lemma store_rows_step:
  assumes "store_rows nc cs (row # rows) = Inr v"
  shows "(\<exists>p. parse_line row = Inr p) \<and> 0 \<le> row_id row \<and> row_id row < nc \<and>
         store_rows nc (cs[nat (row_id row) := row_colour row]) rows = Inr v"
  using assms by (auto simp: row_id_def row_colour_def split: sum.splits if_splits)

lemma store_rows_result:
  "store_rows nc cs rows = Inr v \<Longrightarrow> nat nc \<le> length cs \<Longrightarrow>
   length v = length cs \<and>
   (\<forall>row\<in>set rows. (\<exists>p. parse_line row = Inr p) \<and> 0 \<le> row_id row \<and> row_id row < nc) \<and>
   (\<forall>k<length cs. int k \<notin> row_id ` set rows \<longrightarrow> v ! k = cs ! k) \<and>
   (distinct (map row_id rows) \<longrightarrow> (\<forall>row\<in>set rows. v ! nat (row_id row) = row_colour row))"
proof (induction rows arbitrary: cs)
  case Nil
  then show ?case by simp
next
  case (Cons row rows)
  let ?cs = "cs[nat (row_id row) := row_colour row]"
  from store_rows_step[OF Cons.prems(1)]
  have ok: "\<exists>p. parse_line row = Inr p" "0 \<le> row_id row" "row_id row < nc"
    and rest: "store_rows nc ?cs rows = Inr v" by simp_all
  have len: "nat nc \<le> length ?cs" using Cons.prems(2) by simp
  from Cons.IH[OF rest len]
  have ih: "length v = length cs"
    "\<forall>row\<in>set rows. (\<exists>p. parse_line row = Inr p) \<and> 0 \<le> row_id row \<and> row_id row < nc"
    "\<forall>k<length cs. int k \<notin> row_id ` set rows \<longrightarrow> v ! k = ?cs ! k"
    "distinct (map row_id rows) \<longrightarrow> (\<forall>row\<in>set rows. v ! nat (row_id row) = row_colour row)"
    by simp_all
  have inr: "nat (row_id row) < length cs" using ok(2,3) Cons.prems(2) by linarith
  have a: "\<forall>r\<in>set (row # rows). (\<exists>p. parse_line r = Inr p) \<and> 0 \<le> row_id r \<and> row_id r < nc"
    using ok ih(2) by simp
  have b: "\<forall>k<length cs. int k \<notin> row_id ` set (row # rows) \<longrightarrow> v ! k = cs ! k"
  proof (intro allI impI)
    fix k assume k: "k < length cs" "int k \<notin> row_id ` set (row # rows)"
    then have "int k \<notin> row_id ` set rows" "k \<noteq> nat (row_id row)" using ok(2) by auto
    then show "v ! k = cs ! k" using ih(3) k(1) by simp
  qed
  have c: "distinct (map row_id (row # rows)) \<longrightarrow> (\<forall>r\<in>set (row # rows). v ! nat (row_id r) = row_colour r)"
  proof (intro impI ballI)
    fix r assume d: "distinct (map row_id (row # rows))" and r: "r \<in> set (row # rows)"
    show "v ! nat (row_id r) = row_colour r"
    proof (cases "r = row")
      case True
      have "int (nat (row_id row)) \<notin> row_id ` set rows" using d ok(2) by simp
      then have "v ! nat (row_id row) = ?cs ! nat (row_id row)" using ih(3) inr by blast
      then show ?thesis using True inr by simp
    next
      case False
      then have "r \<in> set rows" using r by simp
      then show ?thesis using ih(4) d by simp
    qed
  qed
  show ?case using ih(1) a b c by blast
qed

lemma store_rows_returns:
  "\<forall>row\<in>set rows. (\<exists>p. parse_line row = Inr p) \<and> 0 \<le> row_id row \<and> row_id row < nc \<Longrightarrow>
   \<exists>v. store_rows nc cs rows = Inr v"
proof (induction rows arbitrary: cs)
  case Nil
  then show ?case by simp
next
  case (Cons row rows)
  then obtain p where p: "parse_line row = Inr p" by auto
  obtain name i r g b where q: "p = (name, i, r, g, b)" by (cases p)
  have i: "0 \<le> i" "i < nc" using Cons.prems p q by (auto simp: row_id_def)
  have "\<forall>row\<in>set rows. (\<exists>p. parse_line row = Inr p) \<and> 0 \<le> row_id row \<and> row_id row < nc"
    using Cons.prems by simp
  from Cons.IH[OF this] show ?case using p q i by simp
qed

text \<open>
  Claim C9, as amended. The loader passes over the first two lines and parses every
  later line as a textual prefix followed by an id and r, g, b; it is the row-by-row
  store of the specification on those lines. When it returns, the vector has exactly
  \<open>num_classes\<close> entries, every row parsed with an id from 0 below the class count, an
  index that no row names holds the default colour, and, the ids being distinct, the
  entry at each row's id is that row's colour. It returns whenever every row parses with
  an id in that range.
\<close>

theorem load_colour_scheme_rows:
  "load_colour_scheme dflt file_lines nc =
     (if nc < 0 then Inl BadAlloc
      else store_rows nc (replicate (nat nc) dflt) (drop 2 file_lines)) \<and>
   (\<forall>v. load_colour_scheme dflt file_lines nc = Inr v \<longrightarrow>
      int (length v) = nc \<and>
      (\<forall>row\<in>set (drop 2 file_lines).
         (\<exists>p. parse_line row = Inr p) \<and> 0 \<le> row_id row \<and> row_id row < nc) \<and>
      (\<forall>k<length v. int k \<notin> row_id ` set (drop 2 file_lines) \<longrightarrow> v ! k = dflt) \<and>
      (distinct (map row_id (drop 2 file_lines)) \<longrightarrow>
         (\<forall>row\<in>set (drop 2 file_lines). v ! nat (row_id row) = row_colour row))) \<and>
   (0 \<le> nc \<and> (\<forall>row\<in>set (drop 2 file_lines).
        (\<exists>p. parse_line row = Inr p) \<and> 0 \<le> row_id row \<and> row_id row < nc) \<longrightarrow>
      (\<exists>v. load_colour_scheme dflt file_lines nc = Inr v))"
proof -
  have eq: "load_colour_scheme dflt file_lines nc =
     (if nc < 0 then Inl BadAlloc
      else store_rows nc (replicate (nat nc) dflt) (drop 2 file_lines))"
    using load_lines_store_rows[of 1 nc "replicate (nat nc) dflt" file_lines]
    by (simp add: load_colour_scheme_def numeral_3_eq_3 numeral_2_eq_2)
  have res: "int (length v) = nc \<and>
      (\<forall>row\<in>set (drop 2 file_lines).
         (\<exists>p. parse_line row = Inr p) \<and> 0 \<le> row_id row \<and> row_id row < nc) \<and>
      (\<forall>k<length v. int k \<notin> row_id ` set (drop 2 file_lines) \<longrightarrow> v ! k = dflt) \<and>
      (distinct (map row_id (drop 2 file_lines)) \<longrightarrow>
         (\<forall>row\<in>set (drop 2 file_lines). v ! nat (row_id row) = row_colour row))"
    if v: "load_colour_scheme dflt file_lines nc = Inr v" for v
  proof -
    have nc: "0 \<le> nc" using v eq by (auto split: if_splits)
    then have st: "store_rows nc (replicate (nat nc) dflt) (drop 2 file_lines) = Inr v"
      using v eq by simp
    from store_rows_result[OF st] have r:
      "length v = length (replicate (nat nc) dflt)"
      "\<forall>row\<in>set (drop 2 file_lines). (\<exists>p. parse_line row = Inr p) \<and> 0 \<le> row_id row \<and> row_id row < nc"
      "\<forall>k<length (replicate (nat nc) dflt). int k \<notin> row_id ` set (drop 2 file_lines) \<longrightarrow>
          v ! k = replicate (nat nc) dflt ! k"
      "distinct (map row_id (drop 2 file_lines)) \<longrightarrow>
         (\<forall>row\<in>set (drop 2 file_lines). v ! nat (row_id row) = row_colour row)"
      by simp_all
    have "int (length v) = nc" using r(1) nc by simp
    moreover have "\<forall>k<length v. int k \<notin> row_id ` set (drop 2 file_lines) \<longrightarrow> v ! k = dflt"
      using r(1,3) by simp
    ultimately show ?thesis using r(2,4) by blast
  qed
  have ex: "\<exists>v. load_colour_scheme dflt file_lines nc = Inr v"
    if "0 \<le> nc \<and> (\<forall>row\<in>set (drop 2 file_lines).
        (\<exists>p. parse_line row = Inr p) \<and> 0 \<le> row_id row \<and> row_id row < nc)"
    using store_rows_returns[of "drop 2 file_lines" nc "replicate (nat nc) dflt"] that eq by simp
  show ?thesis using eq res ex by blast
qed

theorem load_colour_scheme_rows_witness:
  "load_colour_scheme \<lparr>colour_name = [], colour_r = 0, colour_g = 0, colour_b = 0\<rparr>
     [''# colours'', ''name id r g b'', ''wall 1 10 20 30'', ''floor 0 1 2 3''] 3 =
   Inr [\<lparr>colour_name = ''floor'', colour_r = 1, colour_g = 2, colour_b = 3\<rparr>,
        \<lparr>colour_name = ''wall'', colour_r = 10, colour_g = 20, colour_b = 30\<rparr>,
        \<lparr>colour_name = [], colour_r = 0, colour_g = 0, colour_b = 0\<rparr>]"
  using load_colour_scheme_rows[of "\<lparr>colour_name = [], colour_r = 0, colour_g = 0, colour_b = 0\<rparr>"
      "[''# colours'', ''name id r g b'', ''wall 1 10 20 30'', ''floor 0 1 2 3'']" 3]
  by (simp add: parse_line_def extract_string_def extract_int_def isspace_def isdigit_def
      decimal_def Let_def numeral_3_eq_3)

theorem row_without_prefix_counterexample:
  "parse_line ''1 10 20 30'' = Inl Indeterminate \<and>
   load_colour_scheme \<lparr>colour_name = [], colour_r = 0, colour_g = 0, colour_b = 0\<rparr>
     [''# colours'', ''id r g b'', ''1 10 20 30''] 3 = Inl Indeterminate"
  by (simp add: load_colour_scheme_def parse_line_def extract_string_def extract_int_def
      isspace_def isdigit_def decimal_def Let_def)

section \<open>Synchronising without changes\<close>

lemma updateProbabilityTable_no_deletions:
  assumes cts: "0 \<le> cts" "cts \<le> tw" and th: "0 \<le> th"
    and lb: "length buffer = nat th * nat tw" and lm: "length max_buffer = 2 * nat tw"
    and sid: "sid < nat cts"
  shows "\<forall>j<nat th. fst (updateProbabilityTable [] nd cts table tw th cts buffer max_map max_buffer) ! (j * nat tw + sid)
            = table ! (j * nat tw + sid)"
    and "snd (updateProbabilityTable [] nd cts table tw th cts buffer max_map max_buffer) ! sid = max_map ! sid"
    and "snd (updateProbabilityTable [] nd cts table tw th cts buffer max_map max_buffer) ! (nat tw + sid)
            = max_map ! (nat tw + sid)"
proof -
  define w where "w = nat tw"
  have sw: "sid < w" using sid cts by (simp add: w_def)
  have surv: "filter (\<lambda>i. int i \<notin> set (take (nat nd) [])) [0..<nat cts] = [0..<nat cts]" by simp
  have new: "int sid < cts" using sid by simp
  have dm: "(j * w + sid) div w = j" "(j * w + sid) mod w = sid" for j using sw by simp_all
  show "\<forall>j<nat th. fst (updateProbabilityTable [] nd cts table tw th cts buffer max_map max_buffer) ! (j * nat tw + sid)
            = table ! (j * nat tw + sid)"
  proof (intro allI impI)
    fix j assume j: "j < nat th"
    have k: "j * w + sid < length buffer" using cell_index_less[OF sw j] lb by (simp add: w_def)
    show "fst (updateProbabilityTable [] nd cts table tw th cts buffer max_map max_buffer) ! (j * nat tw + sid)
            = table ! (j * nat tw + sid)"
      unfolding updateProbabilityTable_def Let_def surv w_def[symmetric] fst_conv
      using k j sid new sw by (simp add: dm)
  qed
  have k0: "sid < length max_buffer" "w + sid < length max_buffer" using sw lm by (simp_all add: w_def)
  have dm0: "sid div w = 0" "sid mod w = sid" using sw by simp_all
  have dm1: "(w + sid) div w = 1" "(w + sid) mod w = sid" using sw dm[of 1] by simp_all
  show "snd (updateProbabilityTable [] nd cts table tw th cts buffer max_map max_buffer) ! sid = max_map ! sid"
    unfolding updateProbabilityTable_def Let_def surv w_def[symmetric] snd_conv
    using k0 sid new sw by (simp add: dm0)
  show "snd (updateProbabilityTable [] nd cts table tw th cts buffer max_map max_buffer) ! (nat tw + sid)
            = max_map ! (nat tw + sid)"
    unfolding updateProbabilityTable_def Let_def surv w_def[symmetric] snd_conv
    using k0 sid new sw by (simp add: dm1)
qed

text \<open>
  Claim C3. With an empty deletion set and an unchanged logical width the call swaps the
  buffers and nothing else is observable: the logical width is the same, the former
  active blobs are the inactive ones, and every row below the logical width has the same
  probability in every class and the same cached best class and best probability as
  before the call.
\<close>

theorem sync_without_changes_is_noop:
  assumes "map_deleted_ids m = []" and "map_surfel_count m = current_table_size s"
    and "0 \<le> current_table_size s"
    and "current_table_size s \<le> blob_width (class_probabilities_gpu s)"
    and "0 \<le> blob_height (class_probabilities_gpu s)"
    and "length (blob_data (class_probabilities_gpu_buffer s)) =
           nat (blob_height (class_probabilities_gpu s)) * nat (blob_width (class_probabilities_gpu s))"
    and "length (blob_data (class_max_gpu_buffer s)) = 2 * nat (blob_width (class_probabilities_gpu s))"
  shows "current_table_size (UpdateProbabilityTable s m) = current_table_size s \<and>
         class_probabilities_gpu_buffer (UpdateProbabilityTable s m) = class_probabilities_gpu s \<and>
         class_max_gpu_buffer (UpdateProbabilityTable s m) = class_max_gpu s \<and>
         (\<forall>sid<nat (current_table_size s).
            (\<forall>j<nat (blob_height (class_probabilities_gpu s)).
               blob_data (class_probabilities_gpu (UpdateProbabilityTable s m)) !
                   (j * nat (blob_width (class_probabilities_gpu s)) + sid) =
               blob_data (class_probabilities_gpu s) !
                   (j * nat (blob_width (class_probabilities_gpu s)) + sid)) \<and>
            blob_data (class_max_gpu (UpdateProbabilityTable s m)) ! sid =
              blob_data (class_max_gpu s) ! sid \<and>
            blob_data (class_max_gpu (UpdateProbabilityTable s m)) !
                (nat (blob_width (class_probabilities_gpu s)) + sid) =
              blob_data (class_max_gpu s) ! (nat (blob_width (class_probabilities_gpu s)) + sid))"
proof -
  let ?k = "updateProbabilityTable [] (map_deleted_count m) (current_table_size s)
               (blob_data (class_probabilities_gpu s)) (blob_width (class_probabilities_gpu s))
               (blob_height (class_probabilities_gpu s)) (current_table_size s)
               (blob_data (class_probabilities_gpu_buffer s))
               (blob_data (class_max_gpu s)) (blob_data (class_max_gpu_buffer s))"
  have s': "UpdateProbabilityTable s m =
      s\<lparr>class_probabilities_gpu := (class_probabilities_gpu_buffer s)\<lparr>blob_data := fst ?k\<rparr>,
        class_probabilities_gpu_buffer := class_probabilities_gpu s,
        class_max_gpu := (class_max_gpu_buffer s)\<lparr>blob_data := snd ?k\<rparr>,
        class_max_gpu_buffer := class_max_gpu s,
        current_table_size := current_table_size s\<rparr>"
    by (simp add: UpdateProbabilityTable_def Let_def case_prod_beta assms(1,2))
  show ?thesis
    unfolding s'
    using updateProbabilityTable_no_deletions[OF assms(3,4,5,6,7)]
    by simp
qed


theorem sync_without_changes_is_noop_witness:
  "blob_data (class_probabilities_gpu (UpdateProbabilityTable
      (device_state [Fin (1/2), Fin (1/4), Fin 0, Fin (1/2), Fin (3/4), Fin 0]
                    [Fin 9, Fin 9, Fin 9, Fin 9, Fin 9, Fin 9]
                    [Fin 0, Fin 1, Fin 7, Fin (1/2), Fin (3/4), Fin 7]
                    [Fin 8, Fin 8, Fin 8, Fin 8, Fin 8, Fin 8] 2 3 2)
      \<lparr>map_surfel_count = 2, map_deleted_count = 0, map_deleted_ids = []\<rparr>)) =
     [Fin (1/2), Fin (1/4), Fin 9, Fin (1/2), Fin (3/4), Fin 9] \<and>
   blob_data (class_max_gpu (UpdateProbabilityTable
      (device_state [Fin (1/2), Fin (1/4), Fin 0, Fin (1/2), Fin (3/4), Fin 0]
                    [Fin 9, Fin 9, Fin 9, Fin 9, Fin 9, Fin 9]
                    [Fin 0, Fin 1, Fin 7, Fin (1/2), Fin (3/4), Fin 7]
                    [Fin 8, Fin 8, Fin 8, Fin 8, Fin 8, Fin 8] 2 3 2)
      \<lparr>map_surfel_count = 2, map_deleted_count = 0, map_deleted_ids = []\<rparr>)) =
     [Fin 0, Fin 1, Fin 8, Fin (1/2), Fin (3/4), Fin 8]"
  using sync_without_changes_is_noop[of
      "\<lparr>map_surfel_count = 2, map_deleted_count = 0, map_deleted_ids = []\<rparr>"
      "device_state [Fin (1/2), Fin (1/4), Fin 0, Fin (1/2), Fin (3/4), Fin 0]
                    [Fin 9, Fin 9, Fin 9, Fin 9, Fin 9, Fin 9]
                    [Fin 0, Fin 1, Fin 7, Fin (1/2), Fin (3/4), Fin 7]
                    [Fin 8, Fin 8, Fin 8, Fin 8, Fin 8, Fin 8] 2 3 2"]
  by (simp add: UpdateProbabilityTable_def updateProbabilityTable_def device_state_def
      upt_conv_Cons Let_def)

end
